theory Spec2Isabelle
  imports Main "HOL-Library.AList" "HOL-Library.Multiset"
begin

section \<open>KeyValue (key\_value.h)\<close>

text \<open>
  A \<open>TimeStamp\<close> is a reading of \<open>std::chrono::system_clock\<close>, counted in clock ticks.
  \<open>milliseconds\<close> is the conversion that \<open>time_point + std::chrono::milliseconds(n)\<close>
  performs; the tick is taken to be a nanosecond. No theorem below depends on the factor.
\<close>

type_synonym TimeStamp = int

definition milliseconds :: "int \<Rightarrow> int" where
  "milliseconds n = 1000000 * n"

text \<open>
  The fields of the class, named after their accessors. \<open>is_delete\<close> is the only field
  that is ever written after construction.
\<close>

record ('k, 'v) KeyValue =
  get_key :: 'k
  get_value :: 'v
  get_insert_time :: TimeStamp
  get_expire_time :: TimeStamp
  get_expire_time_interval :: int
  is_delete :: bool

text \<open>
  \<open>KeyValue::create(key, value, expire_time_interval)\<close>: the constructor reads the clock
  once; \<open>now\<close> is that reading.
\<close>

definition create :: "TimeStamp \<Rightarrow> 'k \<Rightarrow> 'v \<Rightarrow> int \<Rightarrow> ('k, 'v) KeyValue" where
  "create now k v expire_time_interval =
     \<lparr> get_key = k, get_value = v, get_insert_time = now,
       get_expire_time = now + milliseconds expire_time_interval,
       get_expire_time_interval = expire_time_interval, is_delete = False \<rparr>"

text \<open>\<open>KeyValue::is_expire()\<close>, with the clock reading \<open>now\<close> made explicit.\<close>

definition is_expire :: "TimeStamp \<Rightarrow> ('k, 'v) KeyValue \<Rightarrow> bool" where
  "is_expire now kv =
     (if is_delete kv then True
      else if get_expire_time_interval kv = - 1 then False
      else now > get_expire_time kv)"

section \<open>SafeMap (safe\_map.h)\<close>

text \<open>
  The three containers hold \<open>shared_ptr\<close>s to the same \<open>KeyValue\<close> objects, and
  \<open>delete_value\<close> writes through whichever pointer is at hand. The model therefore has an
  explicit object table \<open>objects\<close>: an address is an index into it, and the containers hold
  addresses. An object enters the table when the map first stores a pointer to it; objects
  are never moved, so an address stays valid.

  \<^item> \<open>data_map\<close> (\<open>_data_map\<close>, an unordered map) is an association list with one entry per
    key; \<open>count(key)\<close> is \<open>map_of data_map key \<noteq> None\<close>.
  \<^item> \<open>min_expire_heap\<close> (\<open>_min_expire_heap\<close>, a \<open>std::priority_queue\<close> over a vector with
    the comparison \<open>MinExpireCompare\<close>) is the vector of the queue, a binary heap; \<open>top\<close>
    is its first element, \<open>push\<close> and \<open>pop\<close> are modelled below.
  \<^item> \<open>queue\<close> (\<open>_queue\<close>, a deque) is a list, front first.
\<close>

type_synonym addr = nat

record ('k, 'v) SafeMap =
  objects :: "('k, 'v) KeyValue list"
  data_map :: "('k \<times> addr) list"
  min_expire_heap :: "addr list"
  queue :: "addr list"

text \<open>The state after the constructor \<open>SafeMap()\<close>.\<close>

definition empty_map :: "('k, 'v) SafeMap" where
  "empty_map = \<lparr> objects = [], data_map = [], min_expire_heap = [], queue = [] \<rparr>"

text \<open>\<open>p->delete_value()\<close> for the pointer \<open>a\<close>.\<close>

definition delete_value :: "('k, 'v) KeyValue list \<Rightarrow> addr \<Rightarrow> ('k, 'v) KeyValue list" where
  "delete_value objs a = objs[a := (objs ! a)\<lparr>is_delete := True\<rparr>]"

subsection \<open>The priority queue\<close>

text \<open>
  \<open>MinExpireCompare\<close>: the record with the greater expiry time is the lesser element, so
  the top of the queue is a record with the least expiry time.
\<close>

definition MinExpireCompare :: "('k, 'v) KeyValue list \<Rightarrow> addr \<Rightarrow> addr \<Rightarrow> bool" where
  "MinExpireCompare objs lhs rhs \<longleftrightarrow>
     get_expire_time (objs ! lhs) > get_expire_time (objs ! rhs)"

text \<open>
  \<open>push\<close> is \<open>c.push_back(x); std::push_heap(c.begin(), c.end(), comp)\<close> and \<open>pop\<close> is
  \<open>std::pop_heap(c.begin(), c.end(), comp); c.pop_back()\<close>. The two algorithms are modelled
  as the GNU C++ library computes them, since the order in which records of equal expiry
  time come to the top depends on them: \<open>__push_heap\<close> moves the hole at \<open>holeIndex\<close>
  towards the root while the parent compares less than the value; \<open>__adjust_heap\<close> moves
  the hole at the root down to a leaf, each time to the child that does not compare less than
  its sibling (the right one when neither does), and then pushes the value up from there.
\<close>

function push_heap_loop ::
  "('k, 'v) KeyValue list \<Rightarrow> addr list \<Rightarrow> nat \<Rightarrow> nat \<Rightarrow> addr \<Rightarrow> addr list" where
  "push_heap_loop objs c holeIndex topIndex v =
     (let parent = (holeIndex - 1) div 2
      in if holeIndex > topIndex \<and> MinExpireCompare objs (c ! parent) v
         then push_heap_loop objs (c[holeIndex := c ! parent]) parent topIndex v
         else c[holeIndex := v])"
  by pat_completeness auto
termination
  by (relation "measure (\<lambda>(objs, c, holeIndex, topIndex, v). holeIndex)") auto

declare push_heap_loop.simps [simp del]

text \<open>\<open>_min_expire_heap.push(p)\<close>.\<close>

definition heap_push :: "('k, 'v) KeyValue list \<Rightarrow> addr \<Rightarrow> addr list \<Rightarrow> addr list" where
  "heap_push objs a h = push_heap_loop objs (h @ [a]) (length h) 0 a"

text \<open>
  The first loop of \<open>__adjust_heap\<close>; the hole is at \<open>secondChild\<close> throughout. The result
  is the vector and the final position of the hole.
\<close>

function adjust_heap_loop ::
  "('k, 'v) KeyValue list \<Rightarrow> addr list \<Rightarrow> nat \<Rightarrow> nat \<Rightarrow> addr list \<times> nat" where
  "adjust_heap_loop objs c secondChild len =
     (if secondChild < (len - 1) div 2 then
        let right = 2 * (secondChild + 1);
            child = (if MinExpireCompare objs (c ! right) (c ! (right - 1)) then right - 1
                     else right)
        in adjust_heap_loop objs (c[secondChild := c ! child]) child len
      else (c, secondChild))"
  by pat_completeness auto
termination
  by (relation "measure (\<lambda>(objs, c, secondChild, len). len - secondChild)") auto

declare adjust_heap_loop.simps [simp del]

text \<open>
  \<open>__adjust_heap(first, holeIndex, len, value, comp)\<close>: after the loop, a last node with
  a single child is handled, then the value is pushed up. It is called with \<open>len \<ge> 1\<close>.
\<close>

definition adjust_heap ::
  "('k, 'v) KeyValue list \<Rightarrow> addr list \<Rightarrow> nat \<Rightarrow> nat \<Rightarrow> addr \<Rightarrow> addr list" where
  "adjust_heap objs c holeIndex len v =
     (case adjust_heap_loop objs c holeIndex len of (c1, secondChild) \<Rightarrow>
        if len mod 2 = 0 \<and> secondChild = (len - 2) div 2
        then push_heap_loop objs (c1[secondChild := c1 ! (2 * (secondChild + 1) - 1)])
               (2 * (secondChild + 1) - 1) holeIndex v
        else push_heap_loop objs c1 secondChild holeIndex v)"

text \<open>
  \<open>_min_expire_heap.pop()\<close>, which the code calls on a non-empty queue only. With more
  than one element, \<open>pop_heap\<close> takes the last element as the value, and adjusts the heap
  of the others from the root; \<open>pop_back\<close> then drops the last position.
\<close>

definition heap_pop :: "('k, 'v) KeyValue list \<Rightarrow> addr list \<Rightarrow> addr list" where
  "heap_pop objs h =
     (if length h > 1 then adjust_heap objs (butlast h) 0 (length h - 1) (last h) else [])"

subsection \<open>Insertion and erasure by key\<close>

definition insert_without_lock ::
  "('k, 'v) SafeMap \<Rightarrow> 'k \<Rightarrow> ('k, 'v) KeyValue \<Rightarrow> bool \<times> ('k, 'v) SafeMap" where
  "insert_without_lock s key map_value =
     (if map_of (data_map s) key \<noteq> None then (False, s)
      else
        let a = length (objects s);
            objs = objects s @ [map_value]
        in (True, s\<lparr> objects := objs,
                     min_expire_heap := heap_push objs a (min_expire_heap s),
                     queue := queue s @ [a],
                     data_map := AList.update key a (data_map s) \<rparr>))"

definition erase_without_lock :: "('k, 'v) SafeMap \<Rightarrow> 'k \<Rightarrow> bool \<times> ('k, 'v) SafeMap" where
  "erase_without_lock s key =
     (case map_of (data_map s) key of
        None \<Rightarrow> (False, s)
      | Some a \<Rightarrow> (True, s\<lparr> objects := delete_value (objects s) a,
                           data_map := AList.delete key (data_map s) \<rparr>))"

text \<open>
  \<open>SafeMap::insert\<close> (named \<open>insert_kv\<close> here, \<open>insert\<close> being a constant of HOL): the
  record is constructed first, reading the clock, then stored.
\<close>

definition insert_kv ::
  "('k, 'v) SafeMap \<Rightarrow> TimeStamp \<Rightarrow> 'k \<Rightarrow> 'v \<Rightarrow> int \<Rightarrow> bool \<times> ('k, 'v) SafeMap" where
  "insert_kv s now key v expire_time_interval =
     insert_without_lock s key (create now key v expire_time_interval)"

definition erase_by_key :: "('k, 'v) SafeMap \<Rightarrow> 'k \<Rightarrow> bool \<times> ('k, 'v) SafeMap" where
  "erase_by_key s key = erase_without_lock s key"

subsection \<open>Time ranges\<close>

text \<open>
  \<open>std::upper_bound(first, last, value, comp)\<close> as the standard library computes it: a
  binary search that halves the remaining length, testing \<open>comp(value, *middle)\<close>. Here
  \<open>p x\<close> stands for \<open>comp(value, x)\<close>, and positions are indices into \<open>xs\<close>.
\<close>

function upper_bound_loop :: "('a \<Rightarrow> bool) \<Rightarrow> 'a list \<Rightarrow> nat \<Rightarrow> nat \<Rightarrow> nat" where
  "upper_bound_loop p xs first len =
     (if len > 0 then
        let half = len div 2;
            middle = first + half
        in if p (xs ! middle) then upper_bound_loop p xs first half
           else upper_bound_loop p xs (middle + 1) (len - half - 1)
      else first)"
  by pat_completeness auto
termination
  by (relation "measure (\<lambda>(p, xs, first, len). len)") auto

declare upper_bound_loop.simps [simp del]

definition upper_bound :: "('a \<Rightarrow> bool) \<Rightarrow> 'a list \<Rightarrow> nat" where
  "upper_bound p xs = upper_bound_loop p xs 0 (length xs)"

definition get_range ::
  "('k, 'v) KeyValue list \<Rightarrow> addr list \<Rightarrow> TimeStamp \<Rightarrow> TimeStamp \<Rightarrow> nat \<times> nat" where
  "get_range objs temp_queue start_time end_time =
     (let low = upper_bound (\<lambda>a. get_insert_time (objs ! a) \<ge> start_time) temp_queue;
          high = upper_bound (\<lambda>a. get_insert_time (objs ! a) > end_time) temp_queue
      in (low, high))"

text \<open>
  The loop \<open>for (it = pair.first; it != pair.second; ++it)\<close> visits the positions from
  \<open>low\<close> up to \<open>high\<close>. When \<open>low > high\<close> the iterator never meets \<open>pair.second\<close> and runs
  off the end of the deque; that is the result \<open>None\<close>.
\<close>

definition range_elems :: "addr list \<Rightarrow> nat \<times> nat \<Rightarrow> addr list option" where
  "range_elems q pair =
     (case pair of (low, high) \<Rightarrow>
        if low \<le> high then Some (take (high - low) (drop low q)) else None)"

fun erase_range_loop ::
  "('k, 'v) SafeMap \<Rightarrow> addr list \<Rightarrow> int \<Rightarrow> int \<times> ('k, 'v) SafeMap" where
  "erase_range_loop s [] erase_count = (erase_count, s)"
| "erase_range_loop s (a # as) erase_count =
     (let s1 = s\<lparr>objects := delete_value (objects s) a\<rparr>;
          (b, s2) = erase_without_lock s1 (get_key (objects s1 ! a))
      in erase_range_loop s2 as (if b then erase_count + 1 else erase_count))"

definition erase_by_time_range ::
  "('k, 'v) SafeMap \<Rightarrow> TimeStamp \<Rightarrow> TimeStamp \<Rightarrow> (int \<times> ('k, 'v) SafeMap) option" where
  "erase_by_time_range s start_time end_time =
     (if start_time > end_time then Some (0, s)
      else
        case range_elems (queue s) (get_range (objects s) (queue s) start_time end_time) of
          None \<Rightarrow> None
        | Some its \<Rightarrow> Some (erase_range_loop s its 0))"

text \<open>
  \<open>get_by_time_range\<close> copies the deque of pointers and reads the objects through the
  copy; it writes nothing.
\<close>

definition get_by_time_range ::
  "('k, 'v) SafeMap \<Rightarrow> TimeStamp \<Rightarrow> TimeStamp \<Rightarrow> TimeStamp \<Rightarrow> bool \<Rightarrow> ('k, 'v) KeyValue list option" where
  "get_by_time_range s now start_time end_time asc =
     (if start_time > end_time then Some []
      else
        let temp_queue = queue s in
        case range_elems temp_queue (get_range (objects s) temp_queue start_time end_time) of
          None \<Rightarrow> None
        | Some its \<Rightarrow>
            Some (map (\<lambda>a. objects s ! a) (filter (\<lambda>a. \<not> is_expire now (objects s ! a)) its)))"

subsection \<open>Insertion order\<close>

text \<open>
  The lambda of \<open>erase_by_order\<close> applied along the iteration; \<open>its\<close> is what is left of
  the deque in the direction of travel; \<open>count0\<close> is the variable \<open>count\<close> of the source.
  The test \<open>count >= n\<close> comes after the removal.
\<close>

fun erase_by_order_loop ::
  "TimeStamp \<Rightarrow> int \<Rightarrow> ('k, 'v) SafeMap \<Rightarrow> addr list \<Rightarrow> int \<Rightarrow> int \<times> ('k, 'v) SafeMap" where
  "erase_by_order_loop now n s [] count0 = (count0, s)"
| "erase_by_order_loop now n s (a # as) count0 =
     (if \<not> is_expire now (objects s ! a) then
        let s1 = s\<lparr>objects := delete_value (objects s) a\<rparr>;
            (b, s2) = erase_without_lock s1 (get_key (objects s1 ! a));
            count1 = (if b then count0 + 1 else count0)
        in if count1 \<ge> n then (count1, s2)
           else erase_by_order_loop now n s2 as count1
      else erase_by_order_loop now n s as count0)"

definition erase_by_order ::
  "('k, 'v) SafeMap \<Rightarrow> TimeStamp \<Rightarrow> int \<Rightarrow> bool \<Rightarrow> int \<times> ('k, 'v) SafeMap" where
  "erase_by_order s now n asc =
     erase_by_order_loop now n s (if asc then queue s else rev (queue s)) 0"

fun get_by_order_loop ::
  "TimeStamp \<Rightarrow> int \<Rightarrow> ('k, 'v) KeyValue list \<Rightarrow> addr list \<Rightarrow>
   ('k, 'v) KeyValue list \<Rightarrow> int \<Rightarrow> ('k, 'v) KeyValue list" where
  "get_by_order_loop now n objs [] result count0 = result"
| "get_by_order_loop now n objs (a # as) result count0 =
     (if \<not> is_expire now (objs ! a) then
        let result1 = result @ [objs ! a];
            count1 = count0 + 1
        in if count1 \<ge> n then result1
           else get_by_order_loop now n objs as result1 count1
      else get_by_order_loop now n objs as result count0)"

definition get_by_order ::
  "('k, 'v) SafeMap \<Rightarrow> TimeStamp \<Rightarrow> int \<Rightarrow> bool \<Rightarrow>
   ('k, 'v) KeyValue list \<times> ('k, 'v) SafeMap" where
  "get_by_order s now n asc =
     (let temp_queue = queue s
      in (get_by_order_loop now n (objects s)
            (if asc then temp_queue else rev temp_queue) [] 0, s))"

subsection \<open>Update and lookup by key\<close>

definition update_value ::
  "('k, 'v) SafeMap \<Rightarrow> TimeStamp \<Rightarrow> 'k \<Rightarrow> 'v \<Rightarrow> int \<Rightarrow> bool \<times> ('k, 'v) SafeMap" where
  "update_value s now key v expire_time_interval =
     (case map_of (data_map s) key of
        None \<Rightarrow> (False, s)
      | Some old \<Rightarrow>
          let old_interval = get_expire_time_interval (objects s ! old);
              map_value =
                (if expire_time_interval = 0 then
                   (if old_interval = - 1 then create now key v (- 1)
                    else create now key v old_interval)
                 else create now key v expire_time_interval);
              s1 = s\<lparr>objects := delete_value (objects s) old\<rparr>;
              s2 = snd (erase_without_lock s1 (get_key (objects s1 ! old)));
              s3 = snd (insert_without_lock s2 key map_value)
          in (True, s3))"

text \<open>
  \<open>get_by_key\<close>: the C++ returns a flag and writes the value through a reference
  parameter; the model returns the value as an option.
\<close>

definition get_by_key ::
  "('k, 'v) SafeMap \<Rightarrow> TimeStamp \<Rightarrow> 'k \<Rightarrow> 'v option \<times> ('k, 'v) SafeMap" where
  "get_by_key s now key =
     (case map_of (data_map s) key of
        None \<Rightarrow> (None, s)
      | Some a \<Rightarrow>
          if is_expire now (objects s ! a)
          then (None, s\<lparr>data_map := AList.delete key (data_map s)\<rparr>)
          else (Some (get_value (objects s ! a)), s))"

subsection \<open>Reclamation\<close>

function tick_loop ::
  "TimeStamp \<Rightarrow> ('k, 'v) KeyValue list \<Rightarrow> addr list \<Rightarrow> ('k, 'v) KeyValue list \<times> addr list" where
  "tick_loop now objs heap =
     (if heap \<noteq> [] then
        let top1 = hd heap
        in if is_expire now (objs ! top1)
           then tick_loop now (delete_value objs top1) (heap_pop (delete_value objs top1) heap)
           else (objs, heap)
      else (objs, heap))"
  by pat_completeness auto

definition tick :: "('k, 'v) SafeMap \<Rightarrow> TimeStamp \<Rightarrow> ('k, 'v) SafeMap" where
  "tick s now =
     (case tick_loop now (objects s) (min_expire_heap s) of
        (objs, heap) \<Rightarrow> s\<lparr>objects := objs, min_expire_heap := heap\<rparr>)"

text \<open>The three loops of \<open>tick_all\<close>, in the order of the source.\<close>

function tick_all_heap ::
  "TimeStamp \<Rightarrow> ('k, 'v) KeyValue list \<Rightarrow> addr list \<Rightarrow> addr list \<Rightarrow>
   ('k, 'v) KeyValue list \<times> addr list" where
  "tick_all_heap now objs heap new_heap =
     (if heap \<noteq> [] then
        let top1 = hd heap
        in if is_expire now (objs ! top1)
           then tick_all_heap now (delete_value objs top1)
                  (heap_pop (delete_value objs top1) heap) new_heap
           else tick_all_heap now objs (heap_pop objs heap) (heap_push objs top1 new_heap)
      else (objs, new_heap))"
  by pat_completeness auto

fun tick_all_queue ::
  "TimeStamp \<Rightarrow> ('k, 'v) KeyValue list \<Rightarrow> addr list \<Rightarrow> addr list \<Rightarrow>
   ('k, 'v) KeyValue list \<times> addr list" where
  "tick_all_queue now objs [] new_queue = (objs, new_queue)"
| "tick_all_queue now objs (front # q) new_queue =
     (if is_expire now (objs ! front) then tick_all_queue now (delete_value objs front) q new_queue
      else tick_all_queue now objs q (new_queue @ [front]))"

fun tick_all_map ::
  "TimeStamp \<Rightarrow> ('k, 'v) KeyValue list \<Rightarrow> ('k \<times> addr) list \<Rightarrow>
   ('k, 'v) KeyValue list \<times> ('k \<times> addr) list" where
  "tick_all_map now objs [] = (objs, [])"
| "tick_all_map now objs ((k, a) # rest) =
     (if is_expire now (objs ! a) then tick_all_map now (delete_value objs a) rest
      else case tick_all_map now objs rest of (objs1, rest1) \<Rightarrow> (objs1, (k, a) # rest1))"

definition tick_all :: "('k, 'v) SafeMap \<Rightarrow> TimeStamp \<Rightarrow> ('k, 'v) SafeMap" where
  "tick_all s now =
     (case tick_all_heap now (objects s) (min_expire_heap s) [] of (objs1, new_heap) \<Rightarrow>
      case tick_all_queue now objs1 (queue s) [] of (objs2, new_queue) \<Rightarrow>
      case tick_all_map now objs2 (data_map s) of (objs3, new_map) \<Rightarrow>
        \<lparr> objects = objs3, data_map = new_map,
          min_expire_heap = new_heap, queue = new_queue \<rparr>)"

subsection \<open>Runs of operations\<close>

text \<open>
  The calls are serialised by the mutex. A run is a list of calls in the order in which
  they take the lock, each with the clock reading it makes; results of the calls are
  dropped, only the state is kept. \<open>Tick\<close> and \<open>TickAll\<close> are the calls that the thread
  of \<open>loop_tick\<close> makes. \<open>insert\<close> makes its reading before it takes the lock, every
  other call after; so when calls of \<open>insert\<close> race, the reading of an \<open>Insert\<close> can be
  earlier than that of the call before it in the run.
\<close>

datatype ('k, 'v) call =
    Insert 'k 'v int
  | EraseByKey 'k
  | EraseByTimeRange TimeStamp TimeStamp
  | EraseByOrder int bool
  | UpdateValue 'k 'v int
  | GetByKey 'k
  | GetByTimeRange TimeStamp TimeStamp bool
  | GetByOrder int bool
  | Tick
  | TickAll

fun step :: "('k, 'v) SafeMap \<Rightarrow> TimeStamp \<Rightarrow> ('k, 'v) call \<Rightarrow> ('k, 'v) SafeMap option" where
  "step s now (Insert k v i) = Some (snd (insert_kv s now k v i))"
| "step s now (EraseByKey k) = Some (snd (erase_by_key s k))"
| "step s now (EraseByTimeRange t1 t2) = map_option snd (erase_by_time_range s t1 t2)"
| "step s now (EraseByOrder n asc) = Some (snd (erase_by_order s now n asc))"
| "step s now (UpdateValue k v i) = Some (snd (update_value s now k v i))"
| "step s now (GetByKey k) = Some (snd (get_by_key s now k))"
| "step s now (GetByTimeRange t1 t2 asc) =
     map_option (\<lambda>_. s) (get_by_time_range s now t1 t2 asc)"
| "step s now (GetByOrder n asc) = Some (snd (get_by_order s now n asc))"
| "step s now Tick = Some (tick s now)"
| "step s now TickAll = Some (tick_all s now)"

fun run ::
  "('k, 'v) SafeMap \<Rightarrow> (TimeStamp \<times> ('k, 'v) call) list \<Rightarrow> ('k, 'v) SafeMap option" where
  "run s [] = Some s"
| "run s ((now, c) # cs) = (case step s now c of None \<Rightarrow> None | Some s1 \<Rightarrow> run s1 cs)"

section \<open>Invariants of the store\<close>

text \<open>
  \<open>valid\<close>: every pointer held by a container points into the object table, an entry of
  the map under key \<open>k\<close> holds a record whose key is \<open>k\<close>, the map has one entry per key
  and the deque holds each record once.
\<close>

definition valid :: "('k, 'v) SafeMap \<Rightarrow> bool" where
  "valid s \<longleftrightarrow>
     (\<forall>a\<in>set (queue s). a < length (objects s)) \<and>
     (\<forall>a\<in>set (min_expire_heap s). a < length (objects s)) \<and>
     (\<forall>k a. map_of (data_map s) k = Some a \<longrightarrow>
        a < length (objects s) \<and> get_key (objects s ! a) = k) \<and>
     distinct (map fst (data_map s)) \<and> distinct (queue s)"

text \<open>The deque is in non-decreasing order of insertion time, and no record is from the future.\<close>

definition queue_sorted :: "('k, 'v) SafeMap \<Rightarrow> bool" where
  "queue_sorted s \<longleftrightarrow> sorted (map (\<lambda>a. get_insert_time (objects s ! a)) (queue s))"

definition queue_before :: "TimeStamp \<Rightarrow> ('k, 'v) SafeMap \<Rightarrow> bool" where
  "queue_before now s \<longleftrightarrow> (\<forall>a\<in>set (queue s). get_insert_time (objects s ! a) \<le> now)"

text \<open>A record of the deque that is not expired is the record the map holds under its key.\<close>

definition live_in_map :: "TimeStamp \<Rightarrow> ('k, 'v) SafeMap \<Rightarrow> bool" where
  "live_in_map now s \<longleftrightarrow>
     (\<forall>a\<in>set (queue s). \<not> is_expire now (objects s ! a) \<longrightarrow>
        map_of (data_map s) (get_key (objects s ! a)) = Some a)"

text \<open>
  The part of \<open>is_expire\<close> that depends on the clock, and the invariant that a record of
  the map carries the deletion mark only when it is past its expiry time.
\<close>

definition past_expiry :: "TimeStamp \<Rightarrow> ('k, 'v) KeyValue \<Rightarrow> bool" where
  "past_expiry now kv \<longleftrightarrow> get_expire_time_interval kv \<noteq> - 1 \<and> now > get_expire_time kv"

definition tombs_expired :: "TimeStamp \<Rightarrow> ('k, 'v) SafeMap \<Rightarrow> bool" where
  "tombs_expired now s \<longleftrightarrow>
     (\<forall>k a. map_of (data_map s) k = Some a \<longrightarrow> is_delete (objects s ! a) \<longrightarrow>
        past_expiry now (objects s ! a))"

definition map_inv :: "TimeStamp \<Rightarrow> ('k, 'v) SafeMap \<Rightarrow> bool" where
  "map_inv now s \<longleftrightarrow>
     valid s \<and> queue_sorted s \<and> queue_before now s \<and> live_in_map now s \<and> tombs_expired now s"

text \<open>The precondition of \<open>std::upper_bound\<close>: once \<open>p\<close> holds it holds for the rest of the range.\<close>

definition partitioned :: "('a \<Rightarrow> bool) \<Rightarrow> 'a list \<Rightarrow> bool" where
  "partitioned p xs \<longleftrightarrow> (\<forall>i j. i \<le> j \<longrightarrow> j < length xs \<longrightarrow> p (xs ! i) \<longrightarrow> p (xs ! j))"

text \<open>
  A run is serial up to \<open>now\<close> when the clock readings of its calls do not decrease and
  none is later than \<open>now\<close>.
\<close>

definition serial :: "TimeStamp \<Rightarrow> (TimeStamp \<times> ('k, 'v) call) list \<Rightarrow> bool" where
  "serial now cs \<longleftrightarrow> sorted (map fst cs) \<and> (\<forall>t\<in>set (map fst cs). t \<le> now)"

text \<open>
  The pair of statements that both bulk erasures apply to a record \<open>a\<close> of the deque:
  \<open>a->delete_value(); erase_without_lock(a->get_key())\<close>.
\<close>

definition erase_record :: "('k, 'v) SafeMap \<Rightarrow> addr \<Rightarrow> bool \<times> ('k, 'v) SafeMap" where
  "erase_record s a =
     erase_without_lock (s\<lparr>objects := delete_value (objects s) a\<rparr>)
       (get_key (delete_value (objects s) a ! a))"

section \<open>Preservation of the invariants\<close>

lemma is_expire_iff: "is_expire now kv \<longleftrightarrow> is_delete kv \<or> past_expiry now kv"
  by (simp add: is_expire_def past_expiry_def)

lemma past_expiry_mono: "past_expiry now kv \<Longrightarrow> now \<le> now' \<Longrightarrow> past_expiry now' kv"
  by (simp add: past_expiry_def)

lemma is_expire_mono: "is_expire now kv \<Longrightarrow> now \<le> now' \<Longrightarrow> is_expire now' kv"
  by (auto simp: is_expire_iff intro: past_expiry_mono)

lemma inv_empty_map: "map_inv now empty_map"
  by (simp add: map_inv_def valid_def queue_sorted_def queue_before_def live_in_map_def
      tombs_expired_def empty_map_def)

lemma inv_mono: "map_inv now s \<Longrightarrow> now \<le> now' \<Longrightarrow> map_inv now' s"
  unfolding map_inv_def queue_before_def live_in_map_def tombs_expired_def
  by (meson is_expire_mono past_expiry_mono order_trans)

subsection \<open>The deletion mark\<close>

lemma length_delete_value [simp]: "length (delete_value objs a) = length objs"
  by (simp add: delete_value_def)

lemma delete_value_nth:
  "delete_value objs a ! b = (if b = a \<and> a < length objs then (objs ! a)\<lparr>is_delete := True\<rparr> else objs ! b)"
  by (cases "a < length objs") (auto simp: delete_value_def nth_list_update not_less list_update_beyond)

lemma get_key_delete_value [simp]: "get_key (delete_value objs a ! b) = get_key (objs ! b)"
  by (simp add: delete_value_nth)

lemma get_insert_time_delete_value [simp]:
  "get_insert_time (delete_value objs a ! b) = get_insert_time (objs ! b)"
  by (simp add: delete_value_nth)

lemma get_expire_time_delete_value [simp]:
  "get_expire_time (delete_value objs a ! b) = get_expire_time (objs ! b)"
  by (simp add: delete_value_nth)

lemma get_interval_delete_value [simp]:
  "get_expire_time_interval (delete_value objs a ! b) = get_expire_time_interval (objs ! b)"
  by (simp add: delete_value_nth)

lemma get_value_delete_value [simp]: "get_value (delete_value objs a ! b) = get_value (objs ! b)"
  by (simp add: delete_value_nth)

lemma past_expiry_delete_value [simp]:
  "past_expiry now (delete_value objs a ! b) = past_expiry now (objs ! b)"
  by (simp add: past_expiry_def)

lemma is_delete_delete_value:
  "is_delete (delete_value objs a ! b) \<longleftrightarrow> is_delete (objs ! b) \<or> (b = a \<and> a < length objs)"
  by (auto simp: delete_value_nth)

lemma is_expire_delete_value:
  "is_expire now (delete_value objs a ! b) \<longleftrightarrow> is_expire now (objs ! b) \<or> (b = a \<and> a < length objs)"
  by (auto simp: is_expire_iff is_delete_delete_value)

subsection \<open>The priority queue\<close>

text \<open>Both algorithms permute the vector with the value put into the hole.\<close>

lemma length_push_heap_loop [simp]:
  "length (push_heap_loop objs c holeIndex topIndex v) = length c"
proof (induction objs c holeIndex topIndex v rule: push_heap_loop.induct)
  case (1 objs c holeIndex topIndex v)
  show ?case
    by (subst push_heap_loop.simps) (simp add: Let_def 1)
qed

lemma swap_hole:
  assumes "p < length c" and "h < length c" and "p \<noteq> h"
  shows "mset (c[h := c ! p, p := v]) = mset (c[h := v])"
proof -
  let ?d = "c[h := v]"
  have "c[h := c ! p, p := v] = ?d[h := ?d ! p, p := ?d ! h]"
    using assms by (simp add: list_update_swap)
  moreover have "mset (?d[h := ?d ! p, p := ?d ! h]) = mset ?d"
    using assms by (intro mset_swap) simp_all
  ultimately show ?thesis by simp
qed

lemma mset_push_heap_loop:
  "holeIndex < length c \<Longrightarrow>
   mset (push_heap_loop objs c holeIndex topIndex v) = mset (c[holeIndex := v])"
proof (induction objs c holeIndex topIndex v rule: push_heap_loop.induct)
  case (1 objs c holeIndex topIndex v)
  let ?parent = "(holeIndex - 1) div 2"
  show ?case
  proof (cases "holeIndex > topIndex \<and> MinExpireCompare objs (c ! ?parent) v")
    case False
    then show ?thesis by (subst push_heap_loop.simps) (auto simp: Let_def)
  next
    case True
    then have p: "?parent < holeIndex" by auto
    with "1.prems" have pl: "?parent < length c" by simp
    have "push_heap_loop objs c holeIndex topIndex v =
          push_heap_loop objs (c[holeIndex := c ! ?parent]) ?parent topIndex v"
      using True by (subst push_heap_loop.simps) (simp add: Let_def)
    also have "mset \<dots> = mset (c[holeIndex := c ! ?parent, ?parent := v])"
      using "1.IH"[OF refl True] pl by simp
    also have "\<dots> = mset (c[holeIndex := v])"
      using pl "1.prems" p by (intro swap_hole) simp_all
    finally show ?thesis .
  qed
qed

lemma mset_heap_push: "mset (heap_push objs a h) = add_mset a (mset h)"
  by (simp add: heap_push_def mset_push_heap_loop)

lemma set_heap_push [simp]: "set (heap_push objs a h) = Set.insert a (set h)"
  using arg_cong[OF mset_heap_push, of set_mset objs a h] by simp

lemma length_heap_push [simp]: "length (heap_push objs a h) = Suc (length h)"
  by (simp add: heap_push_def)

lemma adjust_heap_loop_facts:
  "secondChild < len \<Longrightarrow> len \<le> length c \<Longrightarrow>
   length (fst (adjust_heap_loop objs c secondChild len)) = length c \<and>
   snd (adjust_heap_loop objs c secondChild len) < len \<and>
   mset ((fst (adjust_heap_loop objs c secondChild len))
           [snd (adjust_heap_loop objs c secondChild len) := v]) = mset (c[secondChild := v])"
proof (induction objs c secondChild len rule: adjust_heap_loop.induct)
  case (1 objs c secondChild len)
  show ?case
  proof (cases "secondChild < (len - 1) div 2")
    case False
    then show ?thesis using "1.prems" by (subst (1 2 3 4) adjust_heap_loop.simps) simp
  next
    case True
    let ?right = "2 * (secondChild + 1)"
    let ?child = "if MinExpireCompare objs (c ! ?right) (c ! (?right - 1)) then ?right - 1
                  else ?right"
    have r: "?right < len" using True by presburger
    then have ch: "?child < len" "secondChild < ?child" by auto
    have eq: "adjust_heap_loop objs c secondChild len =
              adjust_heap_loop objs (c[secondChild := c ! ?child]) ?child len"
      using True by (subst adjust_heap_loop.simps) (simp add: Let_def)
    have ih: "length (fst (adjust_heap_loop objs (c[secondChild := c ! ?child]) ?child len)) =
                length (c[secondChild := c ! ?child]) \<and>
              snd (adjust_heap_loop objs (c[secondChild := c ! ?child]) ?child len) < len \<and>
              mset ((fst (adjust_heap_loop objs (c[secondChild := c ! ?child]) ?child len))
                [snd (adjust_heap_loop objs (c[secondChild := c ! ?child]) ?child len) := v]) =
              mset (c[secondChild := c ! ?child, ?child := v])"
      using "1.IH"[OF True refl refl ch(1)] "1.prems"(2) by simp
    have "mset (c[secondChild := c ! ?child, ?child := v]) = mset (c[secondChild := v])"
      using ch "1.prems" by (intro swap_hole) simp_all
    with ih show ?thesis unfolding eq by simp
  qed
qed

lemma mset_adjust_heap:
  assumes "0 < len" and "len \<le> length c"
  shows "mset (adjust_heap objs c 0 len v) = mset (c[0 := v])"
proof -
  obtain c1 s where a: "adjust_heap_loop objs c 0 len = (c1, s)"
    by (cases "adjust_heap_loop objs c 0 len")
  from adjust_heap_loop_facts[OF assms, of objs v] a
  have l: "length c1 = length c" and s: "s < len" and m: "mset (c1[s := v]) = mset (c[0 := v])"
    by simp_all
  show ?thesis
  proof (cases "len mod 2 = 0 \<and> s = (len - 2) div 2")
    case False
    then have "adjust_heap objs c 0 len v = push_heap_loop objs c1 s 0 v"
      using a by (auto simp: adjust_heap_def)
    then show ?thesis using m s l assms by (simp add: mset_push_heap_loop)
  next
    case True
    let ?k = "2 * (s + 1) - 1"
    have k: "?k < len" "s < ?k" using True s by presburger+
    have "adjust_heap objs c 0 len v = push_heap_loop objs (c1[s := c1 ! ?k]) ?k 0 v"
      using a True by (simp add: adjust_heap_def)
    then have "mset (adjust_heap objs c 0 len v) = mset (c1[s := c1 ! ?k, ?k := v])"
      using k l assms by (simp add: mset_push_heap_loop)
    also have "\<dots> = mset (c1[s := v])"
      using k l assms s by (intro swap_hole) simp_all
    finally show ?thesis using m by simp
  qed
qed

lemma mset_heap_pop: "h \<noteq> [] \<Longrightarrow> mset (heap_pop objs h) = mset h - {#hd h#}"
proof (cases "length h > 1")
  case False
  assume "h \<noteq> []"
  with False obtain x where "h = [x]" by (cases h) auto
  then show ?thesis by (simp add: heap_pop_def)
next
  case True
  assume ne: "h \<noteq> []"
  then have h: "h = butlast h @ [last h]" by simp
  have bl: "butlast h \<noteq> []" using True by (cases h) auto
  have "mset (heap_pop objs h) = mset ((butlast h)[0 := last h])"
    using True by (simp add: heap_pop_def mset_adjust_heap)
  also have "\<dots> = add_mset (last h) (mset (butlast h) - {#butlast h ! 0#})"
    by (rule mset_update) (use True in simp)
  also have "butlast h ! 0 = hd h"
    using bl by (metis hd_conv_nth h hd_append2 length_greater_0_conv nth_append)
  also have "add_mset (last h) (mset (butlast h) - {#hd h#}) = mset h - {#hd h#}"
  proof -
    have "hd h \<in># mset (butlast h)"
      using bl by (metis \<open>butlast h ! 0 = hd h\<close> length_greater_0_conv nth_mem set_mset_mset)
    then have "add_mset (last h) (mset (butlast h) - {#hd h#}) =
               add_mset (last h) (mset (butlast h)) - {#hd h#}"
      by simp
    also have "add_mset (last h) (mset (butlast h)) = mset h"
      using arg_cong[OF h, of mset] by simp
    finally show ?thesis .
  qed
  finally show ?thesis .
qed

lemma length_heap_pop [simp]: "length (heap_pop objs h) = length h - 1"
proof (cases "h = []")
  case True
  then show ?thesis by (simp add: heap_pop_def)
next
  case False
  from arg_cong[OF mset_heap_pop[OF False, of objs], of size] False show ?thesis
    by (simp add: size_Diff_singleton)
qed

lemma set_heap_pop: "set (heap_pop objs h) \<subseteq> set h"
proof (cases "h = []")
  case True
  then show ?thesis by (simp add: heap_pop_def)
next
  case False
  from arg_cong[OF mset_heap_pop[OF False, of objs], of set_mset] show ?thesis
    by (auto dest: in_diffD)
qed

text \<open>Each turn of the loops of \<open>tick\<close> and \<open>tick_all\<close> pops one element.\<close>

termination tick_loop
  by (relation "measure (\<lambda>(now, objs, heap). length heap)") (auto simp: Suc_le_eq)

termination tick_all_heap
  by (relation "measure (\<lambda>(now, objs, heap, new_heap). length heap)") (auto simp: Suc_le_eq)

declare tick_loop.simps [simp del]

declare tick_all_heap.simps [simp del]

text \<open>The equations that evaluate the queue on a given vector.\<close>

lemmas heap_eval =
  heap_push_def heap_pop_def push_heap_loop.simps adjust_heap_def adjust_heap_loop.simps
  MinExpireCompare_def

subsection \<open>Steps that keep the invariants\<close>

lemma valid_mapD:
  "valid s \<Longrightarrow> map_of (data_map s) k = Some a \<Longrightarrow>
   a < length (objects s) \<and> get_key (objects s ! a) = k"
  unfolding valid_def by blast

lemma inv_heap_any:
  "map_inv now s \<Longrightarrow> \<forall>a\<in>set h. a < length (objects s) \<Longrightarrow>
   map_inv now (s\<lparr>min_expire_heap := h\<rparr>)"
  by (simp add: map_inv_def valid_def queue_sorted_def queue_before_def live_in_map_def
      tombs_expired_def)

lemma inv_queue_drop:
  assumes "map_inv now s" and "queue s = xs @ a # ys"
  shows "map_inv now (s\<lparr>queue := xs @ ys\<rparr>)"
proof -
  have "valid (s\<lparr>queue := xs @ ys\<rparr>)"
    using assms by (auto simp: map_inv_def valid_def)
  moreover have "queue_sorted (s\<lparr>queue := xs @ ys\<rparr>)"
    using assms by (auto simp: map_inv_def queue_sorted_def sorted_append)
  moreover have "queue_before now (s\<lparr>queue := xs @ ys\<rparr>)"
    using assms by (auto simp: map_inv_def queue_before_def)
  moreover have "live_in_map now (s\<lparr>queue := xs @ ys\<rparr>)"
    using assms by (auto simp: map_inv_def live_in_map_def)
  moreover have "tombs_expired now (s\<lparr>queue := xs @ ys\<rparr>)"
    using assms by (auto simp: map_inv_def tombs_expired_def)
  ultimately show ?thesis by (simp add: map_inv_def)
qed

lemma inv_tomb:
  assumes "map_inv now s"
    and "is_expire now (objects s ! a) \<or> (\<forall>k. map_of (data_map s) k \<noteq> Some a)"
  shows "map_inv now (s\<lparr>objects := delete_value (objects s) a\<rparr>)"
proof -
  let ?s = "s\<lparr>objects := delete_value (objects s) a\<rparr>"
  have "valid ?s"
    using assms(1) by (simp add: map_inv_def valid_def)
  moreover have "queue_sorted ?s"
    using assms(1) by (simp add: map_inv_def queue_sorted_def)
  moreover have "queue_before now ?s"
    using assms(1) by (simp add: map_inv_def queue_before_def)
  moreover have "live_in_map now ?s"
    using assms(1) by (simp add: map_inv_def live_in_map_def is_expire_delete_value)
  moreover have "tombs_expired now ?s"
    using assms by (auto simp: map_inv_def tombs_expired_def is_delete_delete_value is_expire_iff)
  ultimately show ?thesis by (simp add: map_inv_def)
qed

lemma inv_unmap_expired:
  assumes "map_inv now s" and "map_of (data_map s) k = Some a"
    and "is_expire now (objects s ! a)"
  shows "map_inv now (s\<lparr>data_map := AList.delete k (data_map s)\<rparr>)"
proof -
  let ?s = "s\<lparr>data_map := AList.delete k (data_map s)\<rparr>"
  have "valid ?s"
    using assms(1) by (simp add: map_inv_def valid_def delete_conv' distinct_delete)
  moreover have "queue_sorted ?s"
    using assms(1) by (simp add: map_inv_def queue_sorted_def)
  moreover have "queue_before now ?s"
    using assms(1) by (simp add: map_inv_def queue_before_def)
  moreover have "live_in_map now ?s"
    using assms by (auto simp: map_inv_def live_in_map_def delete_conv')
  moreover have "tombs_expired now ?s"
    using assms(1) by (simp add: map_inv_def tombs_expired_def delete_conv')
  ultimately show ?thesis by (simp add: map_inv_def)
qed

lemma erase_without_lock_Some:
  "map_of (data_map s) k = Some a \<Longrightarrow>
   erase_without_lock s k =
     (True, s\<lparr>objects := delete_value (objects s) a, data_map := AList.delete k (data_map s)\<rparr>)"
  by (simp add: erase_without_lock_def)

lemma erase_without_lock_None:
  "map_of (data_map s) k = None \<Longrightarrow> erase_without_lock s k = (False, s)"
  by (simp add: erase_without_lock_def)

lemma inv_erase_without_lock:
  assumes "map_inv now s"
  shows "map_inv now (snd (erase_without_lock s k))"
proof (cases "map_of (data_map s) k")
  case None
  then show ?thesis using assms by (simp add: erase_without_lock_None)
next
  case (Some a)
  let ?s = "s\<lparr>objects := delete_value (objects s) a, data_map := AList.delete k (data_map s)\<rparr>"
  have "valid ?s"
    using assms by (simp add: map_inv_def valid_def delete_conv' distinct_delete)
  moreover have "queue_sorted ?s"
    using assms by (simp add: map_inv_def queue_sorted_def)
  moreover have "queue_before now ?s"
    using assms by (simp add: map_inv_def queue_before_def)
  moreover have "live_in_map now ?s"
    using assms Some
    by (auto simp: map_inv_def live_in_map_def valid_def delete_conv' is_expire_delete_value)
  moreover have "tombs_expired now ?s"
    unfolding tombs_expired_def
  proof (intro allI impI)
    fix k' a'
    assume m: "map_of (data_map ?s) k' = Some a'" and d: "is_delete (objects ?s ! a')"
    from m have k': "k' \<noteq> k" and m': "map_of (data_map s) k' = Some a'"
      by (auto simp: delete_conv' split: if_splits)
    from assms have "valid s" by (simp add: map_inv_def)
    from valid_mapD[OF this m'] valid_mapD[OF this Some] k' have "a' \<noteq> a"
      by auto
    with d have "is_delete (objects s ! a')"
      by (simp add: is_delete_delete_value)
    with assms m' show "past_expiry now (objects ?s ! a')"
      by (simp add: map_inv_def tombs_expired_def)
  qed
  ultimately show ?thesis using Some by (simp add: map_inv_def erase_without_lock_Some)
qed

lemma insert_without_lock_None:
  "map_of (data_map s) k = None \<Longrightarrow>
   insert_without_lock s k mv =
     (True, s\<lparr> objects := objects s @ [mv],
                min_expire_heap := heap_push (objects s @ [mv]) (length (objects s)) (min_expire_heap s),
                queue := queue s @ [length (objects s)],
                data_map := AList.update k (length (objects s)) (data_map s) \<rparr>)"
  by (simp add: insert_without_lock_def Let_def)

lemma insert_without_lock_Some:
  "map_of (data_map s) k = Some a \<Longrightarrow> insert_without_lock s k mv = (False, s)"
  by (simp add: insert_without_lock_def)

lemma inv_insert_without_lock:
  assumes "map_inv now s" and "get_key mv = k" and "get_insert_time mv = now"
    and "\<not> is_delete mv"
  shows "map_inv now (snd (insert_without_lock s k mv))"
proof (cases "map_of (data_map s) k")
  case (Some a)
  then show ?thesis using assms by (simp add: insert_without_lock_Some)
next
  case None
  let ?n = "length (objects s)"
  let ?s = "s\<lparr> objects := objects s @ [mv],
                min_expire_heap := heap_push (objects s @ [mv]) ?n (min_expire_heap s),
                queue := queue s @ [?n],
                data_map := AList.update k ?n (data_map s) \<rparr>"
  have old: "\<forall>a\<in>set (queue s). a < ?n"
    using assms(1) by (simp add: map_inv_def valid_def)
  have nth_old: "\<And>a. a < ?n \<Longrightarrow> (objects s @ [mv]) ! a = objects s ! a"
    by (simp add: nth_append)
  have "valid ?s"
    using assms None
    by (auto simp: map_inv_def valid_def update_conv' distinct_update nth_append less_Suc_eq)
  moreover have "queue_sorted ?s"
    using assms old
    by (auto simp: map_inv_def queue_sorted_def queue_before_def sorted_append nth_append
        cong: map_cong)
  moreover have "queue_before now ?s"
    using assms old by (auto simp: map_inv_def queue_before_def nth_append)
  moreover have "live_in_map now ?s"
    using assms old None
    by (auto simp: map_inv_def live_in_map_def update_conv' nth_append)
  moreover have "tombs_expired now ?s"
    using assms None
    by (auto simp: map_inv_def tombs_expired_def valid_def update_conv' nth_append)
  ultimately show ?thesis using None by (simp add: map_inv_def insert_without_lock_None)
qed

lemma delete_value_commute:
  "delete_value (delete_value objs a) c = delete_value (delete_value objs c) a"
  by (rule nth_equalityI) (auto simp: delete_value_nth)


lemma erase_without_lock_map:
  "map_of (data_map (snd (erase_without_lock s k))) = (map_of (data_map s))(k := None)"
  by (auto simp: erase_without_lock_def delete_conv' split: option.splits)

lemma erase_without_lock_queue [simp]:
  "queue (snd (erase_without_lock s k)) = queue s"
  "min_expire_heap (snd (erase_without_lock s k)) = min_expire_heap s"
  by (simp_all add: erase_without_lock_def split: option.splits)

lemma erase_without_lock_objects:
  "objects (snd (erase_without_lock s k)) =
     (case map_of (data_map s) k of None \<Rightarrow> objects s | Some c \<Rightarrow> delete_value (objects s) c)"
  by (simp add: erase_without_lock_def split: option.splits)

lemma erase_without_lock_tomb:
  "erase_without_lock (s\<lparr>objects := delete_value (objects s) a\<rparr>) k =
     (fst (erase_without_lock s k),
      (snd (erase_without_lock s k))
        \<lparr>objects := delete_value (objects (snd (erase_without_lock s k))) a\<rparr>)"
  by (cases "map_of (data_map s) k") (simp_all add: erase_without_lock_def delete_value_commute)

lemma inv_kill:
  assumes "map_inv now s"
  shows "map_inv now (snd (erase_without_lock (s\<lparr>objects := delete_value (objects s) a\<rparr>)
                        (get_key (delete_value (objects s) a ! a))))"
proof -
  let ?k = "get_key (objects s ! a)"
  let ?s = "snd (erase_without_lock s ?k)"
  have i: "map_inv now ?s"
    using assms by (rule inv_erase_without_lock)
  have "\<forall>k'. map_of (data_map ?s) k' \<noteq> Some a"
  proof (intro allI notI)
    fix k' assume m: "map_of (data_map ?s) k' = Some a"
    from i have "valid ?s" by (simp add: map_inv_def)
    from valid_mapD[OF this m] have "get_key (objects ?s ! a) = k'" by simp
    then have "k' = ?k"
      by (simp add: erase_without_lock_objects split: option.splits)
    with m show False by (simp add: erase_without_lock_map)
  qed
  then have "map_inv now (?s\<lparr>objects := delete_value (objects ?s) a\<rparr>)"
    using inv_tomb[OF i] by blast
  then show ?thesis
    by (simp add: erase_without_lock_tomb)
qed

lemma inv_erase_range_loop:
  "map_inv now s \<Longrightarrow> map_inv now (snd (erase_range_loop s its n))"
proof (induction its arbitrary: s n)
  case Nil
  then show ?case by simp
next
  case (Cons a its)
  let ?r = "erase_without_lock (s\<lparr>objects := delete_value (objects s) a\<rparr>)
              (get_key (delete_value (objects s) a ! a))"
  have "map_inv now (snd ?r)"
    using Cons.prems by (rule inv_kill)
  then have "map_inv now (snd (erase_range_loop (snd ?r) its (if fst ?r then n + 1 else n)))"
    by (rule Cons.IH)
  then show ?case
    by (simp add: Let_def case_prod_unfold)
qed

lemma inv_erase_by_order_loop:
  "map_inv now s \<Longrightarrow> map_inv now (snd (erase_by_order_loop now n s its c))"
proof (induction its arbitrary: s c)
  case Nil
  then show ?case by simp
next
  case (Cons a its)
  let ?r = "erase_without_lock (s\<lparr>objects := delete_value (objects s) a\<rparr>)
              (get_key (delete_value (objects s) a ! a))"
  have k: "map_inv now (snd ?r)"
    using Cons.prems by (rule inv_kill)
  then have "map_inv now (snd (erase_by_order_loop now n (snd ?r) its (if fst ?r then c + 1 else c)))"
    by (rule Cons.IH)
  moreover have "map_inv now (snd (erase_by_order_loop now n s its c))"
    using Cons.prems by (rule Cons.IH)
  ultimately show ?case
    using k by (simp add: Let_def case_prod_unfold)
qed

lemma inv_tick_loop:
  "map_inv now (s\<lparr>objects := objs, min_expire_heap := h\<rparr>) \<Longrightarrow>
   map_inv now (s\<lparr>objects := fst (tick_loop now objs h),
                   min_expire_heap := snd (tick_loop now objs h)\<rparr>)"
proof (induction now objs h rule: tick_loop.induct)
  case (1 now objs heap)
  show ?case
  proof (cases "heap \<noteq> [] \<and> is_expire now (objs ! hd heap)")
    case False
    then have "tick_loop now objs heap = (objs, heap)"
      by (subst tick_loop.simps) (auto simp: Let_def)
    with "1.prems" show ?thesis by simp
  next
    case True
    let ?o = "delete_value objs (hd heap)"
    let ?h = "heap_pop ?o heap"
    have eq: "tick_loop now objs heap = tick_loop now ?o ?h"
      using True by (subst tick_loop.simps) (simp add: Let_def)
    let ?s = "s\<lparr>objects := objs, min_expire_heap := heap\<rparr>"
    have "\<forall>b\<in>set heap. b < length objs"
      using "1.prems" by (simp add: map_inv_def valid_def)
    with set_heap_pop[of ?o heap] have "\<forall>b\<in>set ?h. b < length (objects ?s)"
      by auto
    from inv_heap_any[OF "1.prems" this]
    have i: "map_inv now (s\<lparr>objects := objs, min_expire_heap := ?h\<rparr>)"
      by simp
    have "is_expire now (objects (s\<lparr>objects := objs, min_expire_heap := ?h\<rparr>) ! hd heap) \<or>
          (\<forall>k. map_of (data_map (s\<lparr>objects := objs, min_expire_heap := ?h\<rparr>)) k
             \<noteq> Some (hd heap))"
      using True by simp
    from inv_tomb[OF i this]
    have "map_inv now (s\<lparr>objects := ?o, min_expire_heap := ?h\<rparr>)"
      by (cases s) simp
    from "1.IH"[OF _ refl _ this] True show ?thesis
      unfolding eq by simp
  qed
qed

lemma inv_tick: "map_inv now s \<Longrightarrow> map_inv now (tick s now)"
  using inv_tick_loop[where s = s and objs = "objects s" and h = "min_expire_heap s" and now = now]
  by (simp add: tick_def case_prod_unfold)

lemma inv_tick_all_heap:
  "map_inv now (s\<lparr>objects := objs, min_expire_heap := h\<rparr>) \<Longrightarrow>
   \<forall>b\<in>set nh. b < length objs \<Longrightarrow>
   map_inv now (s\<lparr>objects := fst (tick_all_heap now objs h nh),
                   min_expire_heap := snd (tick_all_heap now objs h nh)\<rparr>)"
proof (induction now objs h nh rule: tick_all_heap.induct)
  case (1 now objs heap new_heap)
  show ?case
  proof (cases "heap = []")
    case True
    then have "tick_all_heap now objs heap new_heap = (objs, new_heap)"
      by (subst tick_all_heap.simps) simp
    with inv_heap_any[OF "1.prems"(1), of new_heap] "1.prems"(2) show ?thesis by simp
  next
    case ne: False
    let ?s = "s\<lparr>objects := objs, min_expire_heap := heap\<rparr>"
    have v: "\<forall>b\<in>set heap. b < length objs"
      using "1.prems"(1) by (simp add: map_inv_def valid_def)
    then have top: "hd heap < length objs" using ne by simp
    show ?thesis
    proof (cases "is_expire now (objs ! hd heap)")
      case False
      let ?h = "heap_pop objs heap"
      have eq: "tick_all_heap now objs heap new_heap =
                tick_all_heap now objs ?h (heap_push objs (hd heap) new_heap)"
        using ne False by (subst tick_all_heap.simps) (simp add: Let_def)
      from v set_heap_pop[of objs heap] have "\<forall>b\<in>set ?h. b < length (objects ?s)"
        by auto
      from inv_heap_any[OF "1.prems"(1) this]
      have i: "map_inv now (s\<lparr>objects := objs, min_expire_heap := ?h\<rparr>)"
        by simp
      have "\<forall>b\<in>set (heap_push objs (hd heap) new_heap). b < length objs"
        using top "1.prems"(2) by simp
      from "1.IH"(2)[OF ne refl False i this] show ?thesis
        unfolding eq .
    next
      case True
      let ?o = "delete_value objs (hd heap)"
      let ?h = "heap_pop ?o heap"
      have eq: "tick_all_heap now objs heap new_heap = tick_all_heap now ?o ?h new_heap"
        using ne True by (subst tick_all_heap.simps) (simp add: Let_def)
      from v set_heap_pop[of ?o heap] have "\<forall>b\<in>set ?h. b < length (objects ?s)"
        by auto
      from inv_heap_any[OF "1.prems"(1) this]
      have i: "map_inv now (s\<lparr>objects := objs, min_expire_heap := ?h\<rparr>)"
        by simp
      have "is_expire now (objects (s\<lparr>objects := objs, min_expire_heap := ?h\<rparr>) ! hd heap) \<or>
            (\<forall>k. map_of (data_map (s\<lparr>objects := objs, min_expire_heap := ?h\<rparr>)) k
               \<noteq> Some (hd heap))"
        using True by simp
      from inv_tomb[OF i this]
      have j: "map_inv now (s\<lparr>objects := ?o, min_expire_heap := ?h\<rparr>)"
        by (cases s) simp
      have "\<forall>b\<in>set new_heap. b < length ?o"
        using "1.prems"(2) by simp
      from "1.IH"(1)[OF ne refl True j this] show ?thesis
        unfolding eq .
    qed
  qed
qed

lemma inv_tick_all_queue:
  "map_inv now (s\<lparr>objects := objs, queue := acc @ q\<rparr>) \<Longrightarrow>
   map_inv now (s\<lparr>objects := fst (tick_all_queue now objs q acc),
                   queue := snd (tick_all_queue now objs q acc)\<rparr>)"
proof (induction q arbitrary: objs acc)
  case Nil
  then show ?case by simp
next
  case (Cons a q)
  show ?case
  proof (cases "is_expire now (objs ! a)")
    case False
    from Cons.IH[where objs = objs and acc = "acc @ [a]"] Cons.prems show ?thesis using False by simp
  next
    case True
    let ?s = "s\<lparr>objects := objs, queue := acc @ a # q\<rparr>"
    have "queue ?s = acc @ a # q" by simp
    from inv_queue_drop[OF Cons.prems this]
    have i: "map_inv now (s\<lparr>objects := objs, queue := acc @ q\<rparr>)"
      by simp
    have "is_expire now (objects (s\<lparr>objects := objs, queue := acc @ q\<rparr>) ! a) \<or>
          (\<forall>k. map_of (data_map (s\<lparr>objects := objs, queue := acc @ q\<rparr>)) k \<noteq> Some a)"
      using True by simp
    from inv_tomb[OF i this]
    have "map_inv now (s\<lparr>objects := delete_value objs a, queue := acc @ q\<rparr>)"
      by (cases s) simp
    from Cons.IH[OF this] show ?thesis using True by simp
  qed
qed

lemma delete_distinct:
  "distinct (map fst (pre @ (k, a) # rest)) \<Longrightarrow> AList.delete k (pre @ (k, a) # rest) = pre @ rest"
  by (induction pre) (auto simp: rev_image_eqI)

lemma inv_tick_all_map:
  "map_inv now (s\<lparr>objects := objs, data_map := pre @ rest\<rparr>) \<Longrightarrow>
   map_inv now (s\<lparr>objects := fst (tick_all_map now objs rest),
                   data_map := pre @ snd (tick_all_map now objs rest)\<rparr>)"
proof (induction rest arbitrary: objs pre)
  case Nil
  then show ?case by simp
next
  case (Cons ka rest)
  obtain k a where ka: "ka = (k, a)" by (cases ka)
  show ?case
  proof (cases "is_expire now (objs ! a)")
    case False
    from Cons.IH[where objs = objs and pre = "pre @ [ka]"] Cons.prems show ?thesis
      using False ka by (simp add: case_prod_unfold)
  next
    case True
    let ?s = "s\<lparr>objects := objs, data_map := pre @ (k, a) # rest\<rparr>"
    have inv0: "map_inv now ?s" using Cons.prems ka by simp
    then have d: "distinct (map fst (pre @ (k, a) # rest))"
      by (simp add: map_inv_def valid_def)
    have "map_of (pre @ (k, a) # rest) k = Some a"
      using map_of_eq_Some_iff[OF d, of k a] by simp
    then have m: "map_of (data_map ?s) k = Some a" by simp
    have e: "is_expire now (objects ?s ! a)" using True by simp
    from inv_unmap_expired[OF inv0 m e] delete_distinct[OF d]
    have i: "map_inv now (s\<lparr>objects := objs, data_map := pre @ rest\<rparr>)"
      by simp
    have "is_expire now (objects (s\<lparr>objects := objs, data_map := pre @ rest\<rparr>) ! a) \<or>
          (\<forall>k. map_of (data_map (s\<lparr>objects := objs, data_map := pre @ rest\<rparr>)) k \<noteq> Some a)"
      using True by simp
    from inv_tomb[OF i this]
    have "map_inv now (s\<lparr>objects := delete_value objs a, data_map := pre @ rest\<rparr>)"
      by (cases s) simp
    from Cons.IH[OF this] show ?thesis using True ka by simp
  qed
qed

lemma inv_tick_all:
  assumes "map_inv now s"
  shows "map_inv now (tick_all s now)"
proof -
  obtain objs1 nh where h: "tick_all_heap now (objects s) (min_expire_heap s) [] = (objs1, nh)"
    by (cases "tick_all_heap now (objects s) (min_expire_heap s) []")
  obtain objs2 nq where q: "tick_all_queue now objs1 (queue s) [] = (objs2, nq)"
    by (cases "tick_all_queue now objs1 (queue s) []")
  obtain objs3 nm where m: "tick_all_map now objs2 (data_map s) = (objs3, nm)"
    by (cases "tick_all_map now objs2 (data_map s)")
  have "map_inv now (s\<lparr>objects := objects s, min_expire_heap := min_expire_heap s\<rparr>)"
    using assms by simp
  from inv_tick_all_heap[OF this, of "[]"] h
  have 1: "map_inv now (s\<lparr>objects := objs1, min_expire_heap := nh\<rparr>)" by simp
  let ?s1 = "s\<lparr>objects := objs1, min_expire_heap := nh\<rparr>"
  have "map_inv now (?s1\<lparr>objects := objs1, queue := [] @ queue s\<rparr>)"
    using 1 by (cases s) simp
  from inv_tick_all_queue[OF this] q
  have 2: "map_inv now (?s1\<lparr>objects := objs2, queue := nq\<rparr>)" by simp
  let ?s2 = "?s1\<lparr>objects := objs2, queue := nq\<rparr>"
  have "map_inv now (?s2\<lparr>objects := objs2, data_map := [] @ data_map s\<rparr>)"
    using 2 by (cases s) simp
  from inv_tick_all_map[OF this] m
  have "map_inv now (?s2\<lparr>objects := objs3, data_map := nm\<rparr>)" by simp
  moreover have "tick_all s now = ?s2\<lparr>objects := objs3, data_map := nm\<rparr>"
    using h q m by (cases s) (simp add: tick_all_def)
  ultimately show ?thesis by simp
qed

section \<open>Binary search and time ranges\<close>

lemma upper_bound_loop_spec:
  assumes "partitioned p xs" and "first + len \<le> length xs"
  shows "first \<le> upper_bound_loop p xs first len \<and>
         upper_bound_loop p xs first len \<le> first + len \<and>
         (\<forall>i. first \<le> i \<and> i < upper_bound_loop p xs first len \<longrightarrow> \<not> p (xs ! i)) \<and>
         (\<forall>i. upper_bound_loop p xs first len \<le> i \<and> i < first + len \<longrightarrow> p (xs ! i))"
  using assms
proof (induction p xs first len rule: upper_bound_loop.induct)
  case (1 p xs first len)
  show ?case
  proof (cases "len > 0")
    case False
    then have "upper_bound_loop p xs first len = first"
      by (subst upper_bound_loop.simps) simp
    with False show ?thesis by auto
  next
    case True
    let ?half = "len div 2"
    let ?middle = "first + ?half"
    have hl: "?half < len" using True by simp
    have ml: "?middle < length xs" using hl "1.prems"(2) by linarith
    show ?thesis
    proof (cases "p (xs ! ?middle)")
      case pm: True
      have eq: "upper_bound_loop p xs first len = upper_bound_loop p xs first ?half"
        using True pm by (subst upper_bound_loop.simps) (simp add: Let_def)
      have ih: "first \<le> upper_bound_loop p xs first ?half \<and>
         upper_bound_loop p xs first ?half \<le> first + ?half \<and>
         (\<forall>i. first \<le> i \<and> i < upper_bound_loop p xs first ?half \<longrightarrow> \<not> p (xs ! i)) \<and>
         (\<forall>i. upper_bound_loop p xs first ?half \<le> i \<and> i < first + ?half \<longrightarrow> p (xs ! i))"
        using "1.IH"(1)[OF True refl refl pm "1.prems"(1)] ml by simp
      have up: "\<And>i. ?middle \<le> i \<Longrightarrow> i < first + len \<Longrightarrow> p (xs ! i)"
        using "1.prems" pm unfolding partitioned_def
        by (meson le_trans less_le_trans)
      have "\<And>i. upper_bound_loop p xs first ?half \<le> i \<Longrightarrow> i < first + len \<Longrightarrow> p (xs ! i)"
      proof -
        fix i assume a: "upper_bound_loop p xs first ?half \<le> i" "i < first + len"
        show "p (xs ! i)"
        proof (cases "i < ?middle")
          case True
          with ih a show ?thesis by blast
        next
          case False
          with up a show ?thesis by simp
        qed
      qed
      moreover have "upper_bound_loop p xs first ?half \<le> first + len"
        using ih hl by linarith
      ultimately show ?thesis
        unfolding eq using ih by blast
    next
      case pm: False
      have eq: "upper_bound_loop p xs first len =
                upper_bound_loop p xs (?middle + 1) (len - ?half - 1)"
        using True pm by (subst upper_bound_loop.simps) (simp add: Let_def)
      have bound: "?middle + 1 + (len - ?half - 1) = first + len"
        using hl by linarith
      have ih: "?middle + 1 \<le> upper_bound_loop p xs (?middle + 1) (len - ?half - 1) \<and>
         upper_bound_loop p xs (?middle + 1) (len - ?half - 1) \<le> first + len \<and>
         (\<forall>i. ?middle + 1 \<le> i \<and> i < upper_bound_loop p xs (?middle + 1) (len - ?half - 1)
             \<longrightarrow> \<not> p (xs ! i)) \<and>
         (\<forall>i. upper_bound_loop p xs (?middle + 1) (len - ?half - 1) \<le> i \<and> i < first + len
             \<longrightarrow> p (xs ! i))"
        using "1.IH"(2)[OF True refl refl pm "1.prems"(1)] "1.prems"(2) bound by simp
      have down: "\<And>i. i \<le> ?middle \<Longrightarrow> \<not> p (xs ! i)"
        using "1.prems"(1) pm ml unfolding partitioned_def by blast
      have "\<And>i. first \<le> i \<Longrightarrow> i < upper_bound_loop p xs (?middle + 1) (len - ?half - 1)
               \<Longrightarrow> \<not> p (xs ! i)"
      proof -
        fix i assume a: "first \<le> i" "i < upper_bound_loop p xs (?middle + 1) (len - ?half - 1)"
        show "\<not> p (xs ! i)"
        proof (cases "i \<le> ?middle")
          case True
          with down show ?thesis by blast
        next
          case False
          then have "?middle + 1 \<le> i" by simp
          with ih a show ?thesis by blast
        qed
      qed
      moreover have "first \<le> upper_bound_loop p xs (?middle + 1) (len - ?half - 1)"
        using ih by linarith
      ultimately show ?thesis
        unfolding eq using ih by blast
    qed
  qed
qed

lemma upper_bound_spec:
  assumes "partitioned p xs"
  shows "upper_bound p xs \<le> length xs \<and>
         (\<forall>i. i < upper_bound p xs \<longrightarrow> \<not> p (xs ! i)) \<and>
         (\<forall>i. upper_bound p xs \<le> i \<and> i < length xs \<longrightarrow> p (xs ! i))"
  using upper_bound_loop_spec[OF assms, of 0 "length xs"] by (simp add: upper_bound_def)

lemma partitioned_sorted:
  assumes "sorted (map f xs)" and "\<And>x y. f x \<le> f y \<Longrightarrow> p x \<Longrightarrow> p y"
  shows "partitioned p xs"
  unfolding partitioned_def
proof (intro allI impI)
  fix i j assume "i \<le> j" "j < length xs" "p (xs ! i)"
  moreover from this assms(1) have "f (xs ! i) \<le> f (xs ! j)"
    using sorted_nth_mono[of "map f xs" i j] by simp
  ultimately show "p (xs ! j)" using assms(2) by blast
qed

lemma set_take_nth:
  assumes "x \<in> set (take n xs)"
  shows "\<exists>i. i < n \<and> i < length xs \<and> x = xs ! i"
proof -
  from assms obtain i where i: "i < length (take n xs)" "take n xs ! i = x"
    by (meson in_set_conv_nth)
  then have "i < n \<and> i < length xs \<and> x = xs ! i" by simp
  then show ?thesis by blast
qed

lemma set_mid_nth:
  assumes "x \<in> set (take m (drop n xs))"
  shows "\<exists>i. n \<le> i \<and> i < n + m \<and> i < length xs \<and> x = xs ! i"
proof -
  from set_take_nth[OF assms] obtain j where j: "j < m" "j < length (drop n xs)" "x = drop n xs ! j"
    by blast
  then have "n \<le> n + j \<and> n + j < n + m \<and> n + j < length xs \<and> x = xs ! (n + j)"
    by simp
  then show ?thesis by blast
qed

lemma set_drop_nth:
  assumes "x \<in> set (drop n xs)"
  shows "\<exists>i. n \<le> i \<and> i < length xs \<and> x = xs ! i"
proof -
  from assms obtain j where j: "j < length (drop n xs)" "drop n xs ! j = x"
    by (meson in_set_conv_nth)
  then have "n \<le> n + j \<and> n + j < length xs \<and> x = xs ! (n + j)"
    by simp
  then show ?thesis by blast
qed

lemma split3:
  assumes "l \<le> h"
  shows "xs = take l xs @ take (h - l) (drop l xs) @ drop h xs"
proof -
  from assms have lh: "l + (h - l) = h" by simp
  have "take l xs @ take (h - l) (drop l xs) = take h xs"
    using take_add[of l "h - l" xs] unfolding lh by (rule sym)
  then have "(take l xs @ take (h - l) (drop l xs)) @ drop h xs = xs"
    by (simp only: append_take_drop_id)
  then show ?thesis by (simp only: append_assoc)
qed

lemma range_elems_get_range:
  fixes objs :: "('k, 'v) KeyValue list"
  assumes srt: "sorted (map (\<lambda>a. get_insert_time (objs ! a)) q)" and le: "start_time \<le> end_time"
  shows "range_elems q (get_range objs q start_time end_time) =
         Some (filter (\<lambda>a. start_time \<le> get_insert_time (objs ! a) \<and>
                            get_insert_time (objs ! a) \<le> end_time) q)"
proof -
  let ?t = "\<lambda>a. get_insert_time (objs ! a)"
  let ?pl = "\<lambda>a. ?t a \<ge> start_time"
  let ?ph = "\<lambda>a. ?t a > end_time"
  let ?low = "upper_bound ?pl q"
  let ?high = "upper_bound ?ph q"
  let ?P = "\<lambda>a. start_time \<le> ?t a \<and> ?t a \<le> end_time"
  have pl: "partitioned ?pl q"
    by (rule partitioned_sorted[OF srt]) simp
  have ph: "partitioned ?ph q"
    by (rule partitioned_sorted[OF srt]) simp
  have L: "?low \<le> length q" "\<And>i. i < ?low \<Longrightarrow> \<not> ?pl (q ! i)"
    "\<And>i. ?low \<le> i \<Longrightarrow> i < length q \<Longrightarrow> ?pl (q ! i)"
    using upper_bound_spec[OF pl] by blast+
  have H: "?high \<le> length q" "\<And>i. i < ?high \<Longrightarrow> \<not> ?ph (q ! i)"
    "\<And>i. ?high \<le> i \<Longrightarrow> i < length q \<Longrightarrow> ?ph (q ! i)"
    using upper_bound_spec[OF ph] by blast+
  have lh: "?low \<le> ?high"
  proof (rule ccontr)
    assume "\<not> ?low \<le> ?high"
    then have hl: "?high < ?low" by simp
    with L(1) have "?high < length q" by simp
    with H(3)[of ?high] have "?ph (q ! ?high)" by simp
    with le have "?pl (q ! ?high)" by simp
    with L(2)[OF hl] show False by simp
  qed
  have split: "q = take ?low q @ take (?high - ?low) (drop ?low q) @ drop ?high q"
    using split3[OF lh] .
  have f1: "filter ?P (take ?low q) = []"
  proof (rule filter_False, rule ballI)
    fix x assume "x \<in> set (take ?low q)"
    from set_take_nth[OF this] obtain i where i: "i < ?low" "x = q ! i" by blast
    from L(2)[OF i(1)] i(2) show "\<not> ?P x" by simp
  qed
  have f2: "filter ?P (take (?high - ?low) (drop ?low q)) = take (?high - ?low) (drop ?low q)"
  proof (rule filter_True, rule ballI)
    fix x assume "x \<in> set (take (?high - ?low) (drop ?low q))"
    from set_mid_nth[OF this] obtain i
      where i: "?low \<le> i" "i < ?low + (?high - ?low)" "i < length q" "x = q ! i"
      by blast
    from i(2) lh have ih: "i < ?high" by linarith
    from L(3)[OF i(1) i(3)] H(2)[OF ih] i(4) show "?P x" by simp
  qed
  have f3: "filter ?P (drop ?high q) = []"
  proof (rule filter_False, rule ballI)
    fix x assume "x \<in> set (drop ?high q)"
    from set_drop_nth[OF this] obtain i where i: "?high \<le> i" "i < length q" "x = q ! i"
      by blast
    from H(3)[OF i(1) i(2)] i(3) show "\<not> ?P x" by simp
  qed
  have "filter ?P q = filter ?P (take ?low q @ take (?high - ?low) (drop ?low q) @ drop ?high q)"
    using arg_cong[OF split, of "filter ?P"] .
  also have "\<dots> = take (?high - ?low) (drop ?low q)"
    unfolding filter_append f1 f2 f3 by simp
  finally show ?thesis
    using lh by (simp add: range_elems_def get_range_def)
qed

section \<open>Every call preserves the invariants\<close>

lemma inv_insert_kv:
  "map_inv now s \<Longrightarrow> map_inv now (snd (insert_kv s now k v i))"
  unfolding insert_kv_def by (rule inv_insert_without_lock) (simp_all add: create_def)

lemma inv_erase_by_key: "map_inv now s \<Longrightarrow> map_inv now (snd (erase_by_key s k))"
  unfolding erase_by_key_def by (rule inv_erase_without_lock)

lemma erase_by_time_range_total:
  assumes "map_inv now s"
  shows "\<exists>r. erase_by_time_range s t1 t2 = Some r"
proof (cases "t1 > t2")
  case True
  then show ?thesis by (simp add: erase_by_time_range_def)
next
  case False
  then have le: "t1 \<le> t2" by simp
  from assms have "sorted (map (\<lambda>a. get_insert_time (objects s ! a)) (queue s))"
    by (simp add: map_inv_def queue_sorted_def)
  from range_elems_get_range[OF this le] False show ?thesis
    by (simp add: erase_by_time_range_def)
qed

lemma inv_erase_by_time_range:
  assumes "map_inv now s" and "erase_by_time_range s t1 t2 = Some r"
  shows "map_inv now (snd r)"
proof (cases "t1 > t2")
  case True
  with assms show ?thesis by (auto simp: erase_by_time_range_def)
next
  case False
  with assms(2) obtain its where "r = erase_range_loop s its 0"
    by (auto simp: erase_by_time_range_def split: option.splits)
  with inv_erase_range_loop[OF assms(1)] show ?thesis by simp
qed

lemma get_by_time_range_total:
  assumes "map_inv t s"
  shows "\<exists>r. get_by_time_range s now t1 t2 asc = Some r"
proof (cases "t1 > t2")
  case True
  then show ?thesis by (simp add: get_by_time_range_def)
next
  case False
  then have le: "t1 \<le> t2" by simp
  from assms have "sorted (map (\<lambda>a. get_insert_time (objects s ! a)) (queue s))"
    by (simp add: map_inv_def queue_sorted_def)
  from range_elems_get_range[OF this le] False show ?thesis
    by (simp add: get_by_time_range_def)
qed

lemma inv_erase_by_order: "map_inv now s \<Longrightarrow> map_inv now (snd (erase_by_order s now n asc))"
  unfolding erase_by_order_def by (rule inv_erase_by_order_loop)

lemma inv_update_value:
  assumes "map_inv now s"
  shows "map_inv now (snd (update_value s now k v i))"
proof (cases "map_of (data_map s) k")
  case None
  with assms show ?thesis by (simp add: update_value_def)
next
  case (Some old)
  let ?s2 = "snd (erase_without_lock (s\<lparr>objects := delete_value (objects s) old\<rparr>)
                   (get_key (delete_value (objects s) old ! old)))"
  have i2: "map_inv now ?s2" using assms by (rule inv_kill)
  have "\<And>j. map_inv now (snd (insert_without_lock ?s2 k (create now k v j)))"
    by (rule inv_insert_without_lock[OF i2]) (simp_all add: create_def)
  then show ?thesis using Some
    by (simp add: update_value_def Let_def)
qed

lemma inv_get_by_key:
  assumes "map_inv now s"
  shows "map_inv now (snd (get_by_key s now k))"
proof (cases "map_of (data_map s) k")
  case None
  with assms show ?thesis by (simp add: get_by_key_def)
next
  case (Some a)
  with assms inv_unmap_expired[OF assms Some] show ?thesis
    by (simp add: get_by_key_def)
qed

lemma inv_step:
  assumes "map_inv now s"
  shows "\<exists>s'. step s now c = Some s' \<and> map_inv now s'"
proof (cases c)
  case (Insert k v i)
  then show ?thesis using inv_insert_kv[OF assms] by simp
next
  case (EraseByKey k)
  then show ?thesis using inv_erase_by_key[OF assms] by simp
next
  case (EraseByTimeRange t1 t2)
  from erase_by_time_range_total[OF assms, of t1 t2] obtain r
    where r: "erase_by_time_range s t1 t2 = Some r" by blast
  from inv_erase_by_time_range[OF assms r] r EraseByTimeRange show ?thesis by simp
next
  case (EraseByOrder n asc)
  then show ?thesis using inv_erase_by_order[OF assms] by simp
next
  case (UpdateValue k v i)
  then show ?thesis using inv_update_value[OF assms] by simp
next
  case (GetByKey k)
  then show ?thesis using inv_get_by_key[OF assms] by simp
next
  case (GetByTimeRange t1 t2 asc)
  from get_by_time_range_total[OF assms, of now t1 t2 asc] obtain r
    where "get_by_time_range s now t1 t2 asc = Some r" by blast
  with assms GetByTimeRange show ?thesis by simp
next
  case (GetByOrder n asc)
  then show ?thesis using assms by (simp add: get_by_order_def Let_def)
next
  case Tick
  then show ?thesis using inv_tick[OF assms] by simp
next
  case TickAll
  then show ?thesis using inv_tick_all[OF assms] by simp
qed

lemma inv_run:
  "map_inv t s \<Longrightarrow> sorted (t # map fst cs) \<Longrightarrow> \<forall>u\<in>set (t # map fst cs). u \<le> now \<Longrightarrow>
   \<exists>s'. run s cs = Some s' \<and> map_inv now s'"
proof (induction cs arbitrary: s t)
  case Nil
  then show ?case using inv_mono by auto
next
  case (Cons c cs)
  obtain u op where c: "c = (u, op)" by (cases c)
  from Cons.prems c have tu: "t \<le> u" by simp
  from inv_mono[OF Cons.prems(1) tu] have "map_inv u s" .
  from inv_step[OF this, of op] obtain s1 where s1: "step s u op = Some s1" "map_inv u s1"
    by blast
  have "sorted (u # map fst cs)" "\<forall>w\<in>set (u # map fst cs). w \<le> now"
    using Cons.prems c by simp_all
  from Cons.IH[OF s1(2) this] s1(1) c show ?case by simp
qed

lemma run_invariant:
  assumes "serial now cs"
  shows "\<exists>s. run empty_map cs = Some s \<and> map_inv now s"
proof (cases cs)
  case Nil
  then show ?thesis by (simp add: inv_empty_map)
next
  case (Cons c cs')
  have "map_inv (fst c) (empty_map :: ('a, 'b) SafeMap)" by (rule inv_empty_map)
  moreover have "sorted (fst c # map fst cs)" "\<forall>u\<in>set (fst c # map fst cs). u \<le> now"
    using assms Cons by (simp_all add: serial_def)
  ultimately show ?thesis by (rule inv_run)
qed

text \<open>
  When the clock readings are in the order in which the calls take the lock, the deque
  stays sorted, and every further call returns.
\<close>

lemma serial_run_queue_sorted:
  assumes "serial now cs"
  shows "\<exists>s. run empty_map cs = Some s \<and>
           sorted (map (\<lambda>a. get_insert_time (objects s ! a)) (queue s)) \<and>
           (\<forall>u c. now \<le> u \<longrightarrow>
              (\<exists>s'. step s u c = Some s' \<and>
                 sorted (map (\<lambda>a. get_insert_time (objects s' ! a)) (queue s'))))"
proof -
  from run_invariant[OF assms] obtain s where s: "run empty_map cs = Some s" "map_inv now s"
    by blast
  have "\<exists>s'. step s u c = Some s' \<and>
          sorted (map (\<lambda>a. get_insert_time (objects s' ! a)) (queue s'))" if "now \<le> u" for u c
  proof -
    from inv_mono[OF s(2) that] have "map_inv u s" .
    from inv_step[OF this, of c] show ?thesis
      by (auto simp: map_inv_def queue_sorted_def)
  qed
  with s show ?thesis
    by (auto simp: map_inv_def queue_sorted_def)
qed

section \<open>What the operations compute\<close>

subsection \<open>Update that keeps the interval\<close>


subsection \<open>Erasure of a time range\<close>

lemma erase_range_loop_Cons:
  "erase_range_loop s (a # its) n =
     erase_range_loop (snd (erase_record s a)) its (if fst (erase_record s a) then n + 1 else n)"
  by (simp add: erase_record_def Let_def case_prod_unfold)



lemma erase_record_length [simp]: "length (objects (snd (erase_record s a))) = length (objects s)"
  by (simp add: erase_record_def erase_without_lock_objects split: option.splits)

lemma erase_record_key [simp]:
  "get_key (objects (snd (erase_record s a)) ! x) = get_key (objects s ! x)"
  by (simp add: erase_record_def erase_without_lock_objects split: option.splits)




lemma erase_range_loop_length [simp]:
  "length (objects (snd (erase_range_loop s its n))) = length (objects s)"
  by (induction its arbitrary: s n)
    (simp_all add: erase_range_loop_Cons del: erase_range_loop.simps(2))


lemma erase_range_loop_queue [simp]:
  "queue (snd (erase_range_loop s its n)) = queue s"
  "min_expire_heap (snd (erase_range_loop s its n)) = min_expire_heap s"
  by (induction its arbitrary: s n)
    (simp_all add: erase_range_loop_Cons erase_record_def del: erase_range_loop.simps(2))

subsection \<open>Counting in the order-based operations\<close>

text \<open>
  For \<open>n \<ge> 1\<close> the loops stop at \<open>n\<close>: the count is below \<open>n\<close> whenever the lambda is
  entered.
\<close>

lemma erase_by_order_loop_le:
  "c < n \<Longrightarrow> fst (erase_by_order_loop now n s its c) \<le> n"
proof (induction its arbitrary: s c)
  case Nil
  then show ?case by simp
next
  case (Cons a its)
  show ?case
  proof (cases "is_expire now (objects s ! a)")
    case True
    with Cons show ?thesis by simp
  next
    case False
    let ?r = "erase_without_lock (s\<lparr>objects := delete_value (objects s) a\<rparr>)
                (get_key (delete_value (objects s) a ! a))"
    let ?c = "if fst ?r then c + 1 else c"
    have c: "?c \<le> n" using Cons.prems by simp
    show ?thesis
    proof (cases "?c \<ge> n")
      case True
      with c False show ?thesis by (simp add: Let_def case_prod_unfold)
    next
      case False
      then have "?c < n" by simp
      from Cons.IH[OF this, of "snd ?r"] False \<open>\<not> is_expire now (objects s ! a)\<close>
      show ?thesis by (simp add: Let_def case_prod_unfold)
    qed
  qed
qed

lemma erase_by_order_le: "1 \<le> n \<Longrightarrow> fst (erase_by_order s now n asc) \<le> n"
  unfolding erase_by_order_def by (rule erase_by_order_loop_le) simp

lemma get_by_order_loop_le:
  "int (length result) = c \<Longrightarrow> c < n \<Longrightarrow>
   int (length (get_by_order_loop now n objs its result c)) \<le> n"
proof (induction its arbitrary: result c)
  case Nil
  then show ?case by simp
next
  case (Cons a its)
  show ?case
  proof (cases "is_expire now (objs ! a)")
    case True
    from Cons.IH[OF Cons.prems] True show ?thesis by simp
  next
    case False
    show ?thesis
    proof (cases "c + 1 \<ge> n")
      case True
      with False Cons.prems show ?thesis by (simp add: Let_def)
    next
      case ge: False
      have "int (length (result @ [objs ! a])) = c + 1" using Cons.prems by simp
      from Cons.IH[OF this] ge False show ?thesis by (simp add: Let_def)
    qed
  qed
qed

lemma get_by_order_le: "1 \<le> n \<Longrightarrow> int (length (fst (get_by_order s now n asc))) \<le> n"
  unfolding get_by_order_def Let_def fst_conv by (rule get_by_order_loop_le) simp_all

lemma get_by_order_state: "snd (get_by_order s now n asc) = s"
  by (simp add: get_by_order_def Let_def)

section \<open>Well-formedness in every run\<close>


lemma valid_heap_any:
  "valid s \<Longrightarrow> \<forall>a\<in>set h. a < length (objects s) \<Longrightarrow> valid (s\<lparr>min_expire_heap := h\<rparr>)"
  by (simp add: valid_def)

lemma valid_queue_drop:
  "valid s \<Longrightarrow> queue s = xs @ a # ys \<Longrightarrow> valid (s\<lparr>queue := xs @ ys\<rparr>)"
  by (auto simp: valid_def)


















section \<open>Properties of the store\<close>




text \<open>
  C2, as amended: \<open>get_by_key\<close> returns nothing and changes nothing when the key is
  absent; when the key is present and \<open>is_expire\<close> holds of its record, it returns
  nothing and erases the key from \<open>data_map\<close>, leaving every record (the deletion mark
  included), the deque and the heap as they were; otherwise it returns the stored value
  and changes nothing.
\<close>

theorem get_by_key_spec:
  "(map_of (data_map s) key = None \<longrightarrow> get_by_key s now key = (None, s)) \<and>
   (\<forall>a. map_of (data_map s) key = Some a \<and> is_expire now (objects s ! a) \<longrightarrow>
      fst (get_by_key s now key) = None \<and>
      map_of (data_map (snd (get_by_key s now key))) = (map_of (data_map s))(key := None) \<and>
      objects (snd (get_by_key s now key)) = objects s \<and>
      queue (snd (get_by_key s now key)) = queue s \<and>
      min_expire_heap (snd (get_by_key s now key)) = min_expire_heap s) \<and>
   (\<forall>a. map_of (data_map s) key = Some a \<and> \<not> is_expire now (objects s ! a) \<longrightarrow>
      get_by_key s now key = (Some (get_value (objects s ! a)), s))"
  by (simp add: get_by_key_def delete_conv')

text \<open>The three cases on the store that holds key 1 with an interval of 10 ms.\<close>

theorem get_by_key_spec_witness:
  "map_of (data_map (snd (insert_kv (empty_map :: (nat, string) SafeMap) 0 1 ''a'' 10))) 1 = Some 0 \<and>
   \<not> is_expire 5 (objects (snd (insert_kv (empty_map :: (nat, string) SafeMap) 0 1 ''a'' 10)) ! 0) \<and>
   is_expire 100000000 (objects (snd (insert_kv (empty_map :: (nat, string) SafeMap) 0 1 ''a'' 10)) ! 0) \<and>
   map_of (data_map (snd (insert_kv (empty_map :: (nat, string) SafeMap) 0 1 ''a'' 10))) 2 = None \<and>
   get_by_key (snd (insert_kv (empty_map :: (nat, string) SafeMap) 0 1 ''a'' 10)) 5 1 =
     (Some ''a'', snd (insert_kv (empty_map :: (nat, string) SafeMap) 0 1 ''a'' 10)) \<and>
   get_by_key (snd (insert_kv (empty_map :: (nat, string) SafeMap) 0 1 ''a'' 10)) 5 2 =
     (None, snd (insert_kv (empty_map :: (nat, string) SafeMap) 0 1 ''a'' 10)) \<and>
   fst (get_by_key (snd (insert_kv (empty_map :: (nat, string) SafeMap) 0 1 ''a'' 10)) 100000000 1) = None \<and>
   map_of (data_map (snd (get_by_key (snd (insert_kv (empty_map :: (nat, string) SafeMap) 0 1 ''a'' 10))
      100000000 1))) 1 = None"
proof -
  let ?s = "snd (insert_kv (empty_map :: (nat, string) SafeMap) 0 1 ''a'' 10)"
  have m: "map_of (data_map ?s) 1 = Some 0" and m2: "map_of (data_map ?s) 2 = None"
    and o: "objects ?s ! 0 = create 0 1 ''a'' 10"
    by (simp_all add: insert_kv_def insert_without_lock_def heap_eval empty_map_def)
  have e1: "\<not> is_expire 5 (objects ?s ! 0)" and e2: "is_expire 100000000 (objects ?s ! 0)"
    unfolding o by (simp_all add: is_expire_def create_def milliseconds_def)
  from get_by_key_spec[of ?s 1 5] get_by_key_spec[of ?s 2 5] get_by_key_spec[of ?s 1 100000000]
    m m2 e1 e2 o
  show ?thesis by (simp add: create_def)
qed

text \<open>
  The lookup of an expired key does not set the deletion mark: after the insert at time 0
  and the lookup 100 ms later the key is gone from the map and the record is unmarked.
\<close>

theorem get_by_key_expired_not_tombstoned:
  "run empty_map [(0, Insert (1::nat) ''a'' 10), (100000000, GetByKey 1)] =
     Some \<lparr> objects = [\<lparr> get_key = 1, get_value = ''a'', get_insert_time = 0,
                         get_expire_time = 10000000, get_expire_time_interval = 10,
                         is_delete = False \<rparr>],
            data_map = [], min_expire_heap = [0], queue = [0] \<rparr> \<and>
   fst (get_by_key (snd (insert_kv (empty_map :: (nat, string) SafeMap) 0 1 ''a'' 10)) 100000000 1)
     = None \<and>
   \<not> is_delete (objects (snd (get_by_key
        (snd (insert_kv (empty_map :: (nat, string) SafeMap) 0 1 ''a'' 10)) 100000000 1)) ! 0)"
  by (simp add: empty_map_def insert_kv_def insert_without_lock_def heap_eval create_def milliseconds_def
      get_by_key_def is_expire_def)

text \<open>
  C3: \<open>erase_by_order(n, asc)\<close> returns a count that never exceeds \<open>n\<close>. The code breaks
  this at \<open>n = 0\<close>: the test \<open>count >= n\<close> is made only after a live record has been
  erased and counted, so on a store with one live record the call erases it and returns 1.
\<close>

theorem erase_by_order_zero:
  "run empty_map [(0, Insert (1::nat) ''a'' (- 1))] =
     Some \<lparr> objects = [\<lparr> get_key = 1, get_value = ''a'', get_insert_time = 0,
                         get_expire_time = - 1000000, get_expire_time_interval = - 1,
                         is_delete = False \<rparr>],
            data_map = [(1, 0)], min_expire_heap = [0], queue = [0] \<rparr> \<and>
   erase_by_order
     \<lparr> objects = [\<lparr> get_key = 1::nat, get_value = ''a'', get_insert_time = 0,
                   get_expire_time = - 1000000, get_expire_time_interval = - 1,
                   is_delete = False \<rparr>],
       data_map = [(1, 0)], min_expire_heap = [0], queue = [0] \<rparr> 5 0 True =
     (1, \<lparr> objects = [\<lparr> get_key = 1, get_value = ''a'', get_insert_time = 0,
                        get_expire_time = - 1000000, get_expire_time_interval = - 1,
                        is_delete = True \<rparr>],
           data_map = [], min_expire_heap = [0], queue = [0] \<rparr>)"
  by (simp add: empty_map_def insert_kv_def insert_without_lock_def heap_eval create_def milliseconds_def
      erase_by_order_def is_expire_def erase_without_lock_def delete_value_def Let_def)

text \<open>
  C4: the deque \<open>queue\<close> is sorted by insertion time in every reachable state. The code
  breaks this when two calls of \<open>insert\<close> race. \<open>insert\<close> constructs its record, and so
  reads the clock, before it takes the lock, whereas \<open>update_value\<close> does both under the
  lock. One thread inserts key 1 and reads the clock at 1; before it takes the lock,
  another thread inserts key 2, reads the clock at 2, takes the lock and appends; then the
  first thread takes the lock and appends. The deque holds the insertion times 2, 1.
\<close>

theorem racing_inserts_unsorted_queue:
  "run empty_map [(2, Insert (2::nat) ''b'' (- 1)), (1, Insert 1 ''a'' (- 1))] =
     Some \<lparr> objects =
              [\<lparr> get_key = 2, get_value = ''b'', get_insert_time = 2,
                 get_expire_time = - 999998, get_expire_time_interval = - 1,
                 is_delete = False \<rparr>,
               \<lparr> get_key = 1, get_value = ''a'', get_insert_time = 1,
                 get_expire_time = - 999999, get_expire_time_interval = - 1,
                 is_delete = False \<rparr>],
            data_map = [(2, 0), (1, 1)], min_expire_heap = [1, 0], queue = [0, 1] \<rparr> \<and>
   \<not> sorted (map (\<lambda>a. get_insert_time
        ([\<lparr> get_key = 2::nat, get_value = ''b'', get_insert_time = 2,
            get_expire_time = - 999998, get_expire_time_interval = - 1,
            is_delete = False \<rparr>,
          \<lparr> get_key = 1, get_value = ''a'', get_insert_time = 1,
            get_expire_time = - 999999, get_expire_time_interval = - 1,
            is_delete = False \<rparr>] ! a)) [0, 1])"
  by (simp add: empty_map_def insert_kv_def insert_without_lock_def heap_eval create_def
      milliseconds_def)

text \<open>
  C5: \<open>erase_by_time_range(start, end)\<close> deletes exactly the records of the deque whose
  insertion time lies in the range. The code breaks this when the range holds a
  superseded record: key 7 is inserted at time 1 and updated at time 5; the erasure of the
  range from 0 to 2 finds the old record, erases key 7 from the map and so marks the
  current record, inserted at time 5, as deleted; it returns 1.
\<close>

theorem erase_by_time_range_outside_range:
  "run empty_map [(1, Insert (7::nat) ''a'' (- 1)), (5, UpdateValue 7 ''b'' 0)] =
     Some \<lparr> objects =
              [\<lparr> get_key = 7, get_value = ''a'', get_insert_time = 1,
                 get_expire_time = - 999999, get_expire_time_interval = - 1,
                 is_delete = True \<rparr>,
               \<lparr> get_key = 7, get_value = ''b'', get_insert_time = 5,
                 get_expire_time = - 999995, get_expire_time_interval = - 1,
                 is_delete = False \<rparr>],
            data_map = [(7, 1)], min_expire_heap = [0, 1], queue = [0, 1] \<rparr> \<and>
   erase_by_time_range
     \<lparr> objects =
         [\<lparr> get_key = 7::nat, get_value = ''a'', get_insert_time = 1,
            get_expire_time = - 999999, get_expire_time_interval = - 1,
            is_delete = True \<rparr>,
          \<lparr> get_key = 7, get_value = ''b'', get_insert_time = 5,
            get_expire_time = - 999995, get_expire_time_interval = - 1,
            is_delete = False \<rparr>],
       data_map = [(7, 1)], min_expire_heap = [0, 1], queue = [0, 1] \<rparr> 0 2 =
     Some (1, \<lparr> objects =
                 [\<lparr> get_key = 7, get_value = ''a'', get_insert_time = 1,
                    get_expire_time = - 999999, get_expire_time_interval = - 1,
                    is_delete = True \<rparr>,
                  \<lparr> get_key = 7, get_value = ''b'', get_insert_time = 5,
                    get_expire_time = - 999995, get_expire_time_interval = - 1,
                    is_delete = True \<rparr>],
               data_map = [], min_expire_heap = [0, 1], queue = [0, 1] \<rparr>)"
  by (simp add: empty_map_def insert_kv_def insert_without_lock_def heap_eval update_value_def
      erase_without_lock_def delete_value_def create_def Let_def milliseconds_def
      erase_by_time_range_def get_range_def upper_bound_def upper_bound_loop.simps
      range_elems_def)



text \<open>
  C7: \<open>insert\<close> returns false and leaves the store as it was exactly when the key is in
  \<open>data_map\<close>; otherwise it returns true, the new record is appended to the deque and to
  the object table, added to the heap (which otherwise keeps its elements) and stored in
  the map under the key.
\<close>

theorem insert_kv_spec:
  "((fst (insert_kv s now key v i) = False \<and> snd (insert_kv s now key v i) = s) \<longleftrightarrow>
      map_of (data_map s) key \<noteq> None) \<and>
   (map_of (data_map s) key = None \<longrightarrow>
      fst (insert_kv s now key v i) = True \<and>
      objects (snd (insert_kv s now key v i)) = objects s @ [create now key v i] \<and>
      queue (snd (insert_kv s now key v i)) = queue s @ [length (objects s)] \<and>
      mset (min_expire_heap (snd (insert_kv s now key v i))) =
        add_mset (length (objects s)) (mset (min_expire_heap s)) \<and>
      map_of (data_map (snd (insert_kv s now key v i))) =
        (map_of (data_map s))(key \<mapsto> length (objects s)))"
proof (cases "map_of (data_map s) key")
  case None
  then have r: "insert_kv s now key v i =
     (True, s\<lparr> objects := objects s @ [create now key v i],
                min_expire_heap := heap_push (objects s @ [create now key v i]) (length (objects s))
                                     (min_expire_heap s),
                queue := queue s @ [length (objects s)],
                data_map := AList.update key (length (objects s)) (data_map s) \<rparr>)"
    by (simp add: insert_kv_def insert_without_lock_None)
  show ?thesis
    unfolding r using None
    by (simp add: update_conv' mset_heap_push)
next
  case (Some a)
  then have "insert_kv s now key v i = (False, s)"
    by (simp add: insert_kv_def insert_without_lock_Some)
  with Some show ?thesis by simp
qed

text \<open>
  Both cases: key 1 is inserted into the empty store, then inserted again into the store
  that holds it.
\<close>

theorem insert_kv_spec_witness:
  "(map_of (data_map (empty_map :: (nat, string) SafeMap)) 1 = None \<and>
    fst (insert_kv (empty_map :: (nat, string) SafeMap) 3 1 ''a'' 10) = True \<and>
    objects (snd (insert_kv (empty_map :: (nat, string) SafeMap) 3 1 ''a'' 10)) =
      [create 3 1 ''a'' 10] \<and>
    queue (snd (insert_kv (empty_map :: (nat, string) SafeMap) 3 1 ''a'' 10)) = [0] \<and>
    min_expire_heap (snd (insert_kv (empty_map :: (nat, string) SafeMap) 3 1 ''a'' 10)) = [0] \<and>
    map_of (data_map (snd (insert_kv (empty_map :: (nat, string) SafeMap) 3 1 ''a'' 10))) =
      [1 \<mapsto> 0]) \<and>
   (map_of (data_map \<lparr> objects = [create 3 (1::nat) ''a'' 10], data_map = [(1, 0)],
                       min_expire_heap = [0], queue = [0] \<rparr>) 1 \<noteq> None \<and>
    insert_kv \<lparr> objects = [create 3 (1::nat) ''a'' 10], data_map = [(1, 0)],
                min_expire_heap = [0], queue = [0] \<rparr> 5 1 ''b'' 20 =
      (False, \<lparr> objects = [create 3 (1::nat) ''a'' 10], data_map = [(1, 0)],
                min_expire_heap = [0], queue = [0] \<rparr>))"
proof -
  let ?t = "\<lparr> objects = [create 3 (1::nat) ''a'' 10], data_map = [(1::nat, 0)],
              min_expire_heap = [0], queue = [0] \<rparr>"
  have A: "map_of (data_map (empty_map :: (nat, string) SafeMap)) 1 = None \<and>
    fst (insert_kv (empty_map :: (nat, string) SafeMap) 3 1 ''a'' 10) = True \<and>
    objects (snd (insert_kv (empty_map :: (nat, string) SafeMap) 3 1 ''a'' 10)) =
      [create 3 1 ''a'' 10] \<and>
    queue (snd (insert_kv (empty_map :: (nat, string) SafeMap) 3 1 ''a'' 10)) = [0] \<and>
    min_expire_heap (snd (insert_kv (empty_map :: (nat, string) SafeMap) 3 1 ''a'' 10)) = [0] \<and>
    map_of (data_map (snd (insert_kv (empty_map :: (nat, string) SafeMap) 3 1 ''a'' 10))) =
      [1 \<mapsto> 0]"
    using insert_kv_spec[of "empty_map :: (nat, string) SafeMap" 3 1 "''a''" 10]
    by (simp add: empty_map_def)
  have m: "map_of (data_map ?t) 1 \<noteq> None" by simp
  have B: "insert_kv ?t 5 1 ''b'' 20 = (False, ?t)"
    using insert_kv_spec[of ?t 5 1 "''b''" 20] m
    by (simp add: prod_eq_iff)
  from A m B show ?thesis by blast
qed

text \<open>
  C8: \<open>get_by_order(n, asc)\<close> returns at most \<open>n\<close> records. The code breaks this at
  \<open>n = 0\<close>, in the same way as \<open>erase_by_order\<close>: on a store with one live record it
  returns that record.
\<close>

theorem get_by_order_zero:
  "run empty_map [(0, Insert (1::nat) ''a'' (- 1))] =
     Some \<lparr> objects = [\<lparr> get_key = 1, get_value = ''a'', get_insert_time = 0,
                         get_expire_time = - 1000000, get_expire_time_interval = - 1,
                         is_delete = False \<rparr>],
            data_map = [(1, 0)], min_expire_heap = [0], queue = [0] \<rparr> \<and>
   fst (get_by_order
     \<lparr> objects = [\<lparr> get_key = 1::nat, get_value = ''a'', get_insert_time = 0,
                   get_expire_time = - 1000000, get_expire_time_interval = - 1,
                   is_delete = False \<rparr>],
       data_map = [(1, 0)], min_expire_heap = [0], queue = [0] \<rparr> 5 0 True) =
     [\<lparr> get_key = 1, get_value = ''a'', get_insert_time = 0,
        get_expire_time = - 1000000, get_expire_time_interval = - 1, is_delete = False \<rparr>]"
  by (simp add: empty_map_def insert_kv_def insert_without_lock_def heap_eval create_def milliseconds_def
      get_by_order_def is_expire_def Let_def)






end
